theory Spec2Isabelle
  imports
    Complex_Main
    "HOL-Library.Multiset"
    "HOL-Library.Char_ord"
    "HOL-Library.List_Lexorder"
    "HOL-Library.Product_Lexorder"
begin

section \<open>Python values handled by firebase\_admin/db.py\<close>

text \<open>
  The query code of \<^verbatim>\<open>db.py\<close> works on decoded JSON: \<^verbatim>\<open>None\<close>, \<^verbatim>\<open>bool\<close>,
  \<^verbatim>\<open>int\<close>, \<^verbatim>\<open>float\<close>, \<^verbatim>\<open>str\<close>, \<^verbatim>\<open>list\<close> and \<^verbatim>\<open>dict\<close>, and it builds
  \<^verbatim>\<open>collections.OrderedDict\<close> values.

  \<^item> A dictionary is an association list in iteration order. Python's dictionaries have
    distinct keys; the theorems that depend on it assume \<open>distinct (map fst kvs)\<close>.
  \<^item> The keys of a dictionary decoded from JSON are strings, and \<^verbatim>\<open>enumerate\<close> pairs
    list items with integer positions, so a key is a string or an integer.
  \<^item> An \<^verbatim>\<open>int\<close> is unbounded. A finite \<^verbatim>\<open>float\<close> is \<open>PFloat r\<close>, with \<open>r\<close> the
    rational number it denotes: the code only compares numbers, and Python compares
    \<^verbatim>\<open>int\<close> with \<^verbatim>\<open>float\<close> exactly. \<open>PNaN\<close> is the \<^verbatim>\<open>float\<close> NaN, which Python's
    JSON decoder accepts and \<^verbatim>\<open>db.py\<close> does not screen: it is unequal to every value,
    itself included, and neither smaller nor greater than any number. The infinities,
    which the decoder accepts too, are left out: they compare as numbers below and above
    every finite one, so no comparison with them behaves unlike one of finite numbers.
  \<^item> A string is a list of \<open>char\<close>, compared lexicographically by character code, as
    Python compares strings by code point.
\<close>

datatype skey = StrKey string | IntKey int

datatype pyval =
    PNone
  | PBool bool
  | PInt int
  | PFloat rat
  | PNaN
  | PStr string
  | PList "pyval list"
  | PDict "(skey \<times> pyval) list"
  | POrderedDict "(skey \<times> pyval) list"

datatype error = ValueError | TypeError | ApiCallError

text \<open>A key used as a value (\<^verbatim>\<open>self._index = key\<close>).\<close>

fun key_val :: "skey \<Rightarrow> pyval" where
  "key_val (StrKey s) = PStr s"
| "key_val (IntKey i) = PInt i"

text \<open>\<^verbatim>\<open>isinstance(x, bool)\<close>\<close>

fun isinstance_bool :: "pyval \<Rightarrow> bool" where
  "isinstance_bool (PBool b) = True"
| "isinstance_bool v = False"

text \<open>\<^verbatim>\<open>isinstance(x, (int, float))\<close>: \<^verbatim>\<open>bool\<close> is a subclass of \<^verbatim>\<open>int\<close>.\<close>

fun isinstance_int_float :: "pyval \<Rightarrow> bool" where
  "isinstance_int_float (PBool b) = True"
| "isinstance_int_float (PInt i) = True"
| "isinstance_int_float (PFloat r) = True"
| "isinstance_int_float PNaN = True"
| "isinstance_int_float v = False"

text \<open>\<^verbatim>\<open>isinstance(x, six.string_types)\<close>\<close>

fun isinstance_str :: "pyval \<Rightarrow> bool" where
  "isinstance_str (PStr s) = True"
| "isinstance_str v = False"

text \<open>\<^verbatim>\<open>isinstance(x, dict)\<close>: \<^verbatim>\<open>OrderedDict\<close> is a subclass of \<^verbatim>\<open>dict\<close>.\<close>

fun isinstance_dict :: "pyval \<Rightarrow> bool" where
  "isinstance_dict (PDict kvs) = True"
| "isinstance_dict (POrderedDict kvs) = True"
| "isinstance_dict v = False"

text \<open>\<^verbatim>\<open>isinstance(x, list)\<close>\<close>

fun isinstance_list :: "pyval \<Rightarrow> bool" where
  "isinstance_list (PList vs) = True"
| "isinstance_list v = False"

text \<open>The truth value of a boolean (\<^verbatim>\<open>not index\<close>, \<^verbatim>\<open>index\<close> after the \<^verbatim>\<open>bool\<close> test).\<close>

fun bool_val :: "pyval \<Rightarrow> bool" where
  "bool_val (PBool b) = b"
| "bool_val v = False"

text \<open>
  The numeric value of a number; \<^verbatim>\<open>False\<close> is 0 and \<^verbatim>\<open>True\<close> is 1. NaN has none:
  the comparisons below test \<open>is_nan\<close> before they read a value.
\<close>

fun is_nan :: "pyval \<Rightarrow> bool" where
  "is_nan PNaN = True"
| "is_nan v = False"

fun num_val :: "pyval \<Rightarrow> rat" where
  "num_val (PBool b) = (if b then 1 else 0)"
| "num_val (PInt i) = of_int i"
| "num_val (PFloat r) = r"
| "num_val v = 0"

text \<open>
  Python 3's \<^verbatim>\<open>!=\<close>, \<^verbatim>\<open><\<close> and \<^verbatim>\<open>>\<close>. Two numbers compare by value, and with
  NaN on either side \<^verbatim>\<open>!=\<close> is true and \<^verbatim>\<open><\<close> and \<^verbatim>\<open>>\<close> are false; two strings
  compare lexicographically; \<^verbatim>\<open><\<close> and \<^verbatim>\<open>>\<close> between \<^verbatim>\<open>None\<close>, dictionaries or
  values of different kinds raise \<^verbatim>\<open>TypeError\<close>. Python compares two lists element by
  element; the sorter never compares containers (they have index type 5, where only keys
  are compared), and the model gives \<^verbatim>\<open>TypeError\<close> and structural inequality there.
\<close>

definition py_ne :: "pyval \<Rightarrow> pyval \<Rightarrow> bool" where
  "py_ne a b =
     (if isinstance_int_float a \<and> isinstance_int_float b
      then is_nan a \<or> is_nan b \<or> num_val a \<noteq> num_val b
      else a \<noteq> b)"

fun py_lt :: "pyval \<Rightarrow> pyval \<Rightarrow> error + bool" where
  "py_lt (PStr s) (PStr t) = Inr (s < t)"
| "py_lt a b =
     (if isinstance_int_float a \<and> isinstance_int_float b
      then Inr (\<not> is_nan a \<and> \<not> is_nan b \<and> num_val a < num_val b)
      else Inl TypeError)"

fun py_gt :: "pyval \<Rightarrow> pyval \<Rightarrow> error + bool" where
  "py_gt (PStr s) (PStr t) = Inr (s > t)"
| "py_gt a b =
     (if isinstance_int_float a \<and> isinstance_int_float b
      then Inr (\<not> is_nan a \<and> \<not> is_nan b \<and> num_val a > num_val b)
      else Inl TypeError)"

text \<open>\<^verbatim>\<open>bool(x)\<close>, as used by \<^verbatim>\<open>not order_by\<close>.\<close>

fun py_truthy :: "pyval \<Rightarrow> bool" where
  "py_truthy PNone = False"
| "py_truthy (PBool b) = b"
| "py_truthy (PInt i) = (i \<noteq> 0)"
| "py_truthy (PFloat r) = (r \<noteq> 0)"
| "py_truthy PNaN = True"
| "py_truthy (PStr s) = (s \<noteq> [])"
| "py_truthy (PList vs) = (vs \<noteq> [])"
| "py_truthy (PDict kvs) = (kvs \<noteq> [])"
| "py_truthy (POrderedDict kvs) = (kvs \<noteq> [])"

text \<open>\<^verbatim>\<open>d.items()\<close>, \<^verbatim>\<open>d.get(k)\<close> and \<^verbatim>\<open>enumerate(xs)\<close>.\<close>

fun dict_items :: "pyval \<Rightarrow> (skey \<times> pyval) list" where
  "dict_items (PDict kvs) = kvs"
| "dict_items (POrderedDict kvs) = kvs"
| "dict_items v = []"

definition dict_get :: "pyval \<Rightarrow> string \<Rightarrow> pyval" where
  "dict_get d k = (case map_of (dict_items d) (StrKey k) of None \<Rightarrow> PNone | Some v \<Rightarrow> v)"

fun list_items :: "pyval \<Rightarrow> pyval list" where
  "list_items (PList vs) = vs"
| "list_items v = []"

definition enumerate_py :: "'a list \<Rightarrow> (skey \<times> 'a) list" where
  "enumerate_py xs = zip (map (\<lambda>i. IntKey (int i)) [0..<length xs]) xs"

text \<open>\<^verbatim>\<open>s.split(c)\<close>, \<^verbatim>\<open>sep.join(xs)\<close> and \<^verbatim>\<open>s.startswith('/')\<close>.\<close>

fun split_sep :: "char \<Rightarrow> string \<Rightarrow> string list" where
  "split_sep c [] = [[]]"
| "split_sep c (x # xs) =
     (if x = c then [] # split_sep c xs
      else (case split_sep c xs of [] \<Rightarrow> [[x]] | w # ws \<Rightarrow> (x # w) # ws))"

fun join_sep :: "string \<Rightarrow> string list \<Rightarrow> string" where
  "join_sep sep [] = []"
| "join_sep sep [s] = s"
| "join_sep sep (s # ss) = s @ sep @ join_sep sep ss"

fun startswith_slash :: "string \<Rightarrow> bool" where
  "startswith_slash [] = False"
| "startswith_slash (c # cs) = (c = CHR ''/'')"

section \<open>Paths, references and queries\<close>

definition INVALID_PATH_CHARACTERS :: string where
  "INVALID_PATH_CHARACTERS = ''[].#$''"

definition RESERVED_FILTERS :: "string list" where
  "RESERVED_FILTERS = [''$key'', ''$value'', ''$priority'']"

text \<open>\<^verbatim>\<open>_parse_path\<close>\<close>

fun parse_path :: "pyval \<Rightarrow> error + string list" where
  "parse_path (PStr path) =
     (if list_ex (\<lambda>ch. ch \<in> set path) INVALID_PATH_CHARACTERS then Inl ValueError
      else Inr (filter (\<lambda>seg. seg \<noteq> []) (split_sep CHR ''/'' path)))"
| "parse_path v = Inl ValueError"

text \<open>
  A \<^verbatim>\<open>Reference\<close> holds its segments and its path URL; a \<^verbatim>\<open>Query\<close> holds the
  normalised order key and the URL it reads. The HTTP client both carry, and the
  request parameters derived from the order key, are transport plumbing and are left
  out; the callers in \<^verbatim>\<open>db.py\<close> pass exactly the keyword arguments
  \<^verbatim>\<open>order_by\<close>, \<^verbatim>\<open>client\<close> and \<^verbatim>\<open>pathurl\<close>, so the final check of
  \<^verbatim>\<open>Query.__init__\<close> for unexpected keyword arguments never fires.
\<close>

record reference =
  segments :: "string list"
  pathurl :: string

record query =
  order_by :: string
  q_pathurl :: string

definition add_suffix :: "reference \<Rightarrow> string \<Rightarrow> string" where
  "add_suffix ref suffix = pathurl ref @ suffix"

text \<open>\<^verbatim>\<open>Query.__init__\<close>\<close>

fun Query_init :: "pyval \<Rightarrow> string \<Rightarrow> error + query" where
  "Query_init (PStr s) url =
     (if \<not> py_truthy (PStr s) then Inl ValueError
      else if s \<notin> set RESERVED_FILTERS then
        (if startswith_slash s then Inl ValueError
         else (case parse_path (PStr s) of
                 Inl e \<Rightarrow> Inl e
               | Inr segs \<Rightarrow> Inr \<lparr>order_by = join_sep ''/'' segs, q_pathurl = url\<rparr>))
      else Inr \<lparr>order_by = s, q_pathurl = url\<rparr>)"
| "Query_init v url = Inl ValueError"

text \<open>\<^verbatim>\<open>Reference.order_by_child\<close> and its three siblings.\<close>

definition order_by_child :: "reference \<Rightarrow> pyval \<Rightarrow> error + query" where
  "order_by_child ref path =
     (if path \<in> PStr ` set RESERVED_FILTERS then Inl ValueError
      else Query_init path (add_suffix ref ''.json''))"

definition order_by_key :: "reference \<Rightarrow> error + query" where
  "order_by_key ref = Query_init (PStr ''$key'') (add_suffix ref ''.json'')"

definition order_by_value :: "reference \<Rightarrow> error + query" where
  "order_by_value ref = Query_init (PStr ''$value'') (add_suffix ref ''.json'')"

definition order_by_priority :: "reference \<Rightarrow> error + query" where
  "order_by_priority ref = Query_init (PStr ''$priority'') (add_suffix ref ''.json'')"

section \<open>Sort entries\<close>

record sort_entry =
  e_key :: skey
  e_value :: pyval
  e_index :: pyval
  e_index_type :: int

definition type_none :: int where "type_none = 0"
definition type_bool_false :: int where "type_bool_false = 1"
definition type_bool_true :: int where "type_bool_true = 2"
definition type_numeric :: int where "type_numeric = 3"
definition type_string :: int where "type_string = 4"
definition type_object :: int where "type_object = 5"

text \<open>\<^verbatim>\<open>_SortEntry._get_index_type\<close>, with the tests in the order of the source.\<close>

definition get_index_type :: "pyval \<Rightarrow> int" where
  "get_index_type index =
     (if index = PNone then type_none
      else if isinstance_bool index \<and> \<not> bool_val index then type_bool_false
      else if isinstance_bool index \<and> bool_val index then type_bool_true
      else if isinstance_int_float index then type_numeric
      else if isinstance_str index then type_string
      else type_object)"

text \<open>\<^verbatim>\<open>_SortEntry._extract_child\<close>: the loop over the segments, then the function.\<close>

fun extract_loop :: "pyval \<Rightarrow> string list \<Rightarrow> pyval" where
  "extract_loop current [] = current"
| "extract_loop current (segment # rest) =
     (if isinstance_dict current then extract_loop (dict_get current segment) rest
      else PNone)"

definition extract_child :: "pyval \<Rightarrow> string \<Rightarrow> pyval" where
  "extract_child v path = extract_loop v (split_sep CHR ''/'' path)"

text \<open>\<^verbatim>\<open>_SortEntry.__init__\<close>\<close>

definition SortEntry_init :: "skey \<Rightarrow> pyval \<Rightarrow> string \<Rightarrow> sort_entry" where
  "SortEntry_init k v ob =
     (let index = (if ob = ''$key'' \<or> ob = ''$priority'' then key_val k
                   else if ob = ''$value'' then v
                   else extract_child v ob)
      in \<lparr>e_key = k, e_value = v, e_index = index, e_index_type = get_index_type index\<rparr>)"

text \<open>
  \<^verbatim>\<open>_SortEntry._compare\<close>: the pair of values to compare is chosen first, then compared
  with \<^verbatim>\<open><\<close> and \<^verbatim>\<open>>\<close>.
\<close>

definition compare_keys :: "sort_entry \<Rightarrow> sort_entry \<Rightarrow> pyval \<times> pyval" where
  "compare_keys self other =
     (if e_index_type self = e_index_type other then
        (if e_index_type self \<in> {type_numeric, type_string}
            \<and> py_ne (e_index self) (e_index other)
         then (e_index self, e_index other)
         else (key_val (e_key self), key_val (e_key other)))
      else (PInt (e_index_type self), PInt (e_index_type other)))"

definition SortEntry_compare :: "sort_entry \<Rightarrow> sort_entry \<Rightarrow> error + int" where
  "SortEntry_compare self other =
     (case compare_keys self other of (self_key, other_key) \<Rightarrow>
        (case py_lt self_key other_key of
           Inl e \<Rightarrow> Inl e
         | Inr True \<Rightarrow> Inr (- 1)
         | Inr False \<Rightarrow>
             (case py_gt self_key other_key of
                Inl e \<Rightarrow> Inl e
              | Inr True \<Rightarrow> Inr 1
              | Inr False \<Rightarrow> Inr 0)))"

text \<open>\<^verbatim>\<open>_SortEntry.__lt__\<close>\<close>

definition SortEntry_lt :: "sort_entry \<Rightarrow> sort_entry \<Rightarrow> error + bool" where
  "SortEntry_lt self other =
     (case SortEntry_compare self other of Inl e \<Rightarrow> Inl e | Inr c \<Rightarrow> Inr (c < 0))"

section \<open>The sorter\<close>

text \<open>
  \<^verbatim>\<open>sorted(entries)\<close> is a stable sort that compares with \<^verbatim>\<open>__lt__\<close> only and
  propagates an exception of the comparison. It is modelled as the stable insertion
  sort: an entry is placed before the first sorted entry that is not smaller than it.
  Where \<^verbatim>\<open>__lt__\<close> is a strict total order on the entries, which it is when no index is
  NaN, the result is the one ascending arrangement, whatever the sorting algorithm. With
  a NaN index the arrangement a sort returns depends on the pairs it compares; a list
  in which no entry is smaller than its predecessor is returned as it is, by this sort
  as by Python's.
\<close>

fun insert_entry :: "sort_entry \<Rightarrow> sort_entry list \<Rightarrow> error + sort_entry list" where
  "insert_entry x [] = Inr [x]"
| "insert_entry x (y # ys) =
     (case SortEntry_lt y x of
        Inl e \<Rightarrow> Inl e
      | Inr True \<Rightarrow> (case insert_entry x ys of Inl e \<Rightarrow> Inl e | Inr r \<Rightarrow> Inr (y # r))
      | Inr False \<Rightarrow> Inr (x # y # ys))"

fun sorted_py :: "sort_entry list \<Rightarrow> error + sort_entry list" where
  "sorted_py [] = Inr []"
| "sorted_py (x # xs) =
     (case sorted_py xs of Inl e \<Rightarrow> Inl e | Inr r \<Rightarrow> insert_entry x r)"

record sorter =
  dict_input :: bool
  sort_entries :: "sort_entry list"

text \<open>
  \<^verbatim>\<open>_Sorter.__init__\<close> and \<^verbatim>\<open>_Sorter.get\<close>. The list comprehension
  \<^verbatim>\<open>[_SortEntry(k, v, order_by) for k, v in ...]\<close> is \<open>entries_of\<close>.
\<close>

definition entries_of :: "string \<Rightarrow> (skey \<times> pyval) list \<Rightarrow> sort_entry list" where
  "entries_of ob kvs = map (\<lambda>(k, v). SortEntry_init k v ob) kvs"

definition Sorter_init :: "pyval \<Rightarrow> string \<Rightarrow> error + sorter" where
  "Sorter_init results ob =
     (if isinstance_dict results then
        (case sorted_py (entries_of ob (dict_items results)) of
           Inl e \<Rightarrow> Inl e
         | Inr es \<Rightarrow> Inr \<lparr>dict_input = True, sort_entries = es\<rparr>)
      else if isinstance_list results then
        (case sorted_py (entries_of ob (enumerate_py (list_items results))) of
           Inl e \<Rightarrow> Inl e
         | Inr es \<Rightarrow> Inr \<lparr>dict_input = False, sort_entries = es\<rparr>)
      else Inl ValueError)"

definition Sorter_get :: "sorter \<Rightarrow> pyval" where
  "Sorter_get s =
     (if dict_input s then POrderedDict (map (\<lambda>e. (e_key e, e_value e)) (sort_entries s))
      else PList (map e_value (sort_entries s)))"

text \<open>The expression \<^verbatim>\<open>_Sorter(result, self._order_by).get()\<close> of \<^verbatim>\<open>Query.run\<close>.\<close>

definition Sorter_result :: "pyval \<Rightarrow> string \<Rightarrow> error + pyval" where
  "Sorter_result results ob =
     (case Sorter_init results ob of Inl e \<Rightarrow> Inl e | Inr s \<Rightarrow> Inr (Sorter_get s))"

text \<open>
  \<^verbatim>\<open>Query.run\<close>. The outcome of \<^verbatim>\<open>self._client.request('get', ...)\<close> is the argument
  \<open>response\<close>: the decoded body, or the \<^verbatim>\<open>ApiCallError\<close> the client raised.
\<close>

definition Query_run :: "query \<Rightarrow> error + pyval \<Rightarrow> error + pyval" where
  "Query_run q response =
     (case response of
        Inl e \<Rightarrow> Inl e
      | Inr result \<Rightarrow>
          (if (isinstance_dict result \<or> isinstance_list result) \<and> order_by q \<noteq> ''$priority''
           then Sorter_result result (order_by q)
           else Inr result))"

section \<open>The comparison as a lexicographic key\<close>

text \<open>
  Proof device: on entries built by \<open>SortEntry_init\<close> whose keys are of one kind and
  whose indices are not NaN, \<open>SortEntry_lt\<close> is the lexicographic order of the triple
  (index type, index, key), so the insertion sort above is the library's \<open>sort_key\<close>.
\<close>

fun is_str_key :: "skey \<Rightarrow> bool" where
  "is_str_key (StrKey s) = True"
| "is_str_key (IntKey i) = False"

fun key_ord :: "skey \<Rightarrow> int \<times> string" where
  "key_ord (StrKey s) = (0, s)"
| "key_ord (IntKey i) = (i, [])"

fun index_ord :: "pyval \<Rightarrow> rat \<times> string" where
  "index_ord (PInt i) = (of_int i, [])"
| "index_ord (PFloat r) = (r, [])"
| "index_ord (PStr s) = (0, s)"
| "index_ord v = (0, [])"

definition entry_ord :: "sort_entry \<Rightarrow> int \<times> (rat \<times> string) \<times> (int \<times> string)" where
  "entry_ord e = (e_index_type e, index_ord (e_index e), key_ord (e_key e))"

definition wf_entry :: "sort_entry \<Rightarrow> bool" where
  "wf_entry e = (e_index_type e = get_index_type (e_index e))"

text \<open>
  Proof device: where the comparison does not raise, \<open>sorted_py\<close> is the insertion sort
  \<open>isort\<close> with the relation \<open>lt_holds\<close>.
\<close>

definition lt_holds :: "sort_entry \<Rightarrow> sort_entry \<Rightarrow> bool" where
  "lt_holds a b = (SortEntry_lt a b = Inr True)"

fun ins :: "('a \<Rightarrow> 'a \<Rightarrow> bool) \<Rightarrow> 'a \<Rightarrow> 'a list \<Rightarrow> 'a list" where
  "ins P x [] = [x]"
| "ins P x (y # ys) = (if P y x then y # ins P x ys else x # y # ys)"

fun isort :: "('a \<Rightarrow> 'a \<Rightarrow> bool) \<Rightarrow> 'a list \<Rightarrow> 'a list" where
  "isort P [] = []"
| "isort P (x # xs) = ins P x (isort P xs)"

text \<open>
  Proof device: the index of an entry under by-value or by-child ordering, which depends
  on the value alone.
\<close>

definition value_index :: "string \<Rightarrow> pyval \<Rightarrow> pyval" where
  "value_index ob v = (if ob = ''$value'' then v else extract_child v ob)"

section \<open>The specification's words\<close>

text \<open>
  The walk of a by-child path as the specification words it: follow each segment into a
  nested object; where the current value is not an object, or has no such key, the index
  is null.
\<close>

fun spec_walk :: "pyval \<Rightarrow> string list \<Rightarrow> pyval" where
  "spec_walk v [] = v"
| "spec_walk (PDict kvs) (seg # segs) =
     (case map_of kvs (StrKey seg) of None \<Rightarrow> PNone | Some child \<Rightarrow> spec_walk child segs)"
| "spec_walk (POrderedDict kvs) (seg # segs) =
     (case map_of kvs (StrKey seg) of None \<Rightarrow> PNone | Some child \<Rightarrow> spec_walk child segs)"
| "spec_walk v (seg # segs) = PNone"


section \<open>Shared lemmas\<close>

lemmas type_defs = type_none_def type_bool_false_def type_bool_true_def type_numeric_def
  type_string_def type_object_def

subsection \<open>Entries built by the constructor\<close>

lemma wf_entry_init: "wf_entry (SortEntry_init k v ob)"
  by (simp add: wf_entry_def SortEntry_init_def Let_def)

lemma e_key_init: "e_key (SortEntry_init k v ob) = k"
  by (simp add: SortEntry_init_def Let_def)

lemma e_value_init: "e_value (SortEntry_init k v ob) = v"
  by (simp add: SortEntry_init_def Let_def)

lemma index_type_init:
  "e_index_type (SortEntry_init k v ob) = get_index_type (e_index (SortEntry_init k v ob))"
  by (simp add: SortEntry_init_def Let_def)

lemma index_by_child:
  "p \<notin> set RESERVED_FILTERS \<Longrightarrow> e_index (SortEntry_init k v p) = extract_child v p"
  by (auto simp: SortEntry_init_def Let_def RESERVED_FILTERS_def)

lemma index_by_value:
  assumes "ob \<noteq> ''$key''" "ob \<noteq> ''$priority''"
  shows "e_index (SortEntry_init k v ob) = value_index ob v"
  using assms by (simp add: SortEntry_init_def Let_def value_index_def)

lemma index_by_key:
  assumes "ob = ''$key'' \<or> ob = ''$priority''"
  shows "e_index (SortEntry_init k v ob) = key_val k"
  using assms by (auto simp: SortEntry_init_def Let_def)

lemma entry_ord_init:
  "entry_ord (SortEntry_init k v ob)
     = (get_index_type (e_index (SortEntry_init k v ob)),
        index_ord (e_index (SortEntry_init k v ob)), key_ord k)"
  by (simp add: entry_ord_def index_type_init e_key_init)

lemma key_value_entries: "map (\<lambda>e. (e_key e, e_value e)) (entries_of ob kvs) = kvs"
  by (induction kvs) (auto simp: entries_of_def e_key_init e_value_init)

lemma value_entries: "map e_value (entries_of ob kvs) = map snd kvs"
  by (induction kvs) (auto simp: entries_of_def e_value_init)

lemma wf_entries: "\<forall>e\<in>set (entries_of ob kvs). wf_entry e"
  by (auto simp: entries_of_def wf_entry_init)

lemma kind_entries:
  assumes "\<forall>k\<in>set (map fst kvs). is_str_key k = kind"
  shows "\<forall>e\<in>set (entries_of ob kvs). is_str_key (e_key e) = kind"
  using assms by (auto simp: entries_of_def e_key_init)

lemma init_key_value_entry:
  "e \<in> set (entries_of ob kvs) \<Longrightarrow> SortEntry_init (e_key e) (e_value e) ob = e"
  by (auto simp: entries_of_def e_key_init e_value_init)

lemma entries_of_pairs:
  assumes "set r \<subseteq> set (entries_of ob kvs)"
  shows "entries_of ob (map (\<lambda>e. (e_key e, e_value e)) r) = r"
proof -
  have "map (\<lambda>e. SortEntry_init (e_key e) (e_value e) ob) r = map (\<lambda>e. e) r"
    using assms by (intro map_cong refl) (auto dest: init_key_value_entry)
  then show ?thesis by (simp add: entries_of_def comp_def)
qed

lemma mset_entries_of:
  "mset kvs' = mset kvs \<Longrightarrow> mset (entries_of ob kvs') = mset (entries_of ob kvs)"
proof -
  assume "mset kvs' = mset kvs"
  then have "image_mset (\<lambda>(k, v). SortEntry_init k v ob) (mset kvs')
     = image_mset (\<lambda>(k, v). SortEntry_init k v ob) (mset kvs)" by simp
  then show ?thesis by (simp add: entries_of_def)
qed

lemma entries_of_fst_snd:
  "map f (entries_of ob kvs) = map (\<lambda>p. f (SortEntry_init (fst p) (snd p) ob)) kvs"
  by (simp add: entries_of_def case_prod_beta)

subsection \<open>Enumerated lists\<close>

lemma is_str_key_enumerate: "\<forall>k\<in>set (map fst (enumerate_py xs)). is_str_key k = False"
  by (auto simp: enumerate_py_def dest!: set_zip_leftD)

lemma map_snd_enumerate: "map snd (enumerate_py xs) = xs"
  by (simp add: enumerate_py_def)

lemma distinct_enumerate: "distinct (map fst (enumerate_py xs))"
  by (simp add: enumerate_py_def distinct_map inj_on_def)

lemma length_enumerate: "length (enumerate_py xs) = length xs"
  by (simp add: enumerate_py_def)

lemma nth_enumerate: "i < length xs \<Longrightarrow> enumerate_py xs ! i = (IntKey (int i), xs ! i)"
  by (simp add: enumerate_py_def)

subsection \<open>The comparison of two entries\<close>

lemma lt_rank_differs:
  assumes "e_index_type a \<noteq> e_index_type c"
  shows "SortEntry_lt a c = Inr (e_index_type a < e_index_type c)"
  using assms
  by (simp add: SortEntry_lt_def SortEntry_compare_def compare_keys_def split: bool.splits)

lemma lt_total:
  assumes "wf_entry a" "wf_entry b" "is_str_key (e_key a) = is_str_key (e_key b)"
  shows "SortEntry_lt a b = Inr (lt_holds a b)"
proof -
  have "\<exists>r. SortEntry_lt a b = Inr r"
    using assms
    by (cases "e_index a"; cases "e_index b"; cases "e_key a"; cases "e_key b")
       (auto simp: SortEntry_lt_def SortEntry_compare_def compare_keys_def wf_entry_def
          get_index_type_def type_defs py_ne_def split: bool.splits)
  then show ?thesis by (auto simp: lt_holds_def)
qed

lemma lt_ord:
  assumes "wf_entry a" "wf_entry b" "is_str_key (e_key a) = is_str_key (e_key b)"
    "e_index a \<noteq> PNaN" "e_index b \<noteq> PNaN"
  shows "SortEntry_lt a b = Inr (entry_ord a < entry_ord b)"
  using assms
  by (cases "e_index a"; cases "e_index b"; cases "e_key a"; cases "e_key b")
     (auto simp: SortEntry_lt_def SortEntry_compare_def compare_keys_def wf_entry_def
        get_index_type_def type_defs entry_ord_def py_ne_def split: bool.splits)

lemma lt_holds_ord:
  assumes "wf_entry a" "wf_entry b" "is_str_key (e_key a) = is_str_key (e_key b)"
    "e_index a \<noteq> PNaN" "e_index b \<noteq> PNaN"
  shows "lt_holds a b = (entry_ord a < entry_ord b)"
  using lt_ord[OF assms] by (simp add: lt_holds_def)

lemma lt_numeric:
  assumes "wf_entry a" "wf_entry c" "e_index_type a = type_numeric" "e_index_type c = type_numeric"
    "e_index a \<noteq> PNaN" "e_index c \<noteq> PNaN"
    "num_val (e_index a) \<noteq> num_val (e_index c)"
  shows "SortEntry_lt a c = Inr (num_val (e_index a) < num_val (e_index c))"
  using assms
  by (cases "e_index a"; cases "e_index c")
     (auto simp: SortEntry_lt_def SortEntry_compare_def compare_keys_def wf_entry_def
        get_index_type_def type_defs py_ne_def split: bool.splits if_splits)

lemma lt_nan:
  assumes "wf_entry a" "wf_entry c" "e_index_type a = type_numeric" "e_index_type c = type_numeric"
    "e_index a = PNaN \<or> e_index c = PNaN"
  shows "SortEntry_lt a c = Inr False \<and> SortEntry_compare a c = Inr 0"
  using assms
  by (cases "e_index a"; cases "e_index c")
     (auto simp: SortEntry_lt_def SortEntry_compare_def compare_keys_def wf_entry_def
        get_index_type_def type_defs py_ne_def split: bool.splits if_splits)

lemma lt_string:
  assumes "wf_entry a" "wf_entry c" "e_index_type a = type_string" "e_index_type c = type_string"
    "e_index a \<noteq> e_index c"
  shows "\<exists>s t. e_index a = PStr s \<and> e_index c = PStr t \<and> SortEntry_lt a c = Inr (s < t)"
  using assms
  by (cases "e_index a"; cases "e_index c")
     (auto simp: SortEntry_lt_def SortEntry_compare_def compare_keys_def wf_entry_def
        get_index_type_def type_defs py_ne_def split: bool.splits if_splits)

lemma lt_by_key:
  assumes "wf_entry a" "wf_entry c" "e_index_type a = e_index_type c"
    "e_index_type a \<notin> {type_numeric, type_string}
     \<or> e_index_type a = type_numeric \<and> e_index a \<noteq> PNaN \<and> e_index c \<noteq> PNaN
         \<and> num_val (e_index a) = num_val (e_index c)
     \<or> e_index_type a = type_string \<and> e_index a = e_index c"
  shows "SortEntry_lt a c = (case py_lt (key_val (e_key a)) (key_val (e_key c)) of Inl e \<Rightarrow> Inl e | Inr b \<Rightarrow> Inr b)"
  using assms
  by (cases "e_index a"; cases "e_index c"; cases "e_key a"; cases "e_key c")
     (auto simp: SortEntry_lt_def SortEntry_compare_def compare_keys_def wf_entry_def
        get_index_type_def type_defs py_ne_def split: bool.splits if_splits)

lemma none_before_other:
  assumes "wf_entry a" "wf_entry c" "e_index a = PNone" "e_index c \<noteq> PNone"
  shows "SortEntry_lt a c = Inr True \<and> SortEntry_lt c a = Inr False"
  using assms
  by (cases "e_index c")
     (auto simp: wf_entry_def get_index_type_def type_defs SortEntry_lt_def
        SortEntry_compare_def compare_keys_def)

lemma lt_holds_rank_le: "lt_holds y x \<Longrightarrow> e_index_type y \<le> e_index_type x"
  using lt_rank_differs[of y x] by (cases "e_index_type y = e_index_type x") (auto simp: lt_holds_def)

lemma rank_less_lt_holds: "e_index_type y < e_index_type x \<Longrightarrow> lt_holds y x"
  using lt_rank_differs[of y x] by (simp add: lt_holds_def)

lemma lt_holds_asym:
  assumes "wf_entry a" "wf_entry b" "is_str_key (e_key a) = is_str_key (e_key b)" "lt_holds a b"
  shows "\<not> lt_holds b a"
  using assms unfolding lt_holds_def
  by (cases "e_index a"; cases "e_index b"; cases "e_key a"; cases "e_key b")
     (auto simp: SortEntry_lt_def SortEntry_compare_def compare_keys_def wf_entry_def
        get_index_type_def type_defs py_ne_def split: bool.splits if_splits)

lemma lt_rekey:
  assumes "wf_entry a" "wf_entry b" "wf_entry a'" "wf_entry b'"
    "e_index a' = e_index a" "e_index b' = e_index b"
    "e_key a = IntKey j" "e_key b = IntKey j'"
    "e_key a' = IntKey i" "e_key b' = IntKey i'" "i < i'"
    "lt_holds b' a'"
  shows "lt_holds b a"
  using assms unfolding lt_holds_def
  by (cases "e_index a"; cases "e_index b")
     (auto simp: SortEntry_lt_def SortEntry_compare_def compare_keys_def wf_entry_def
        get_index_type_def type_defs py_ne_def split: bool.splits if_splits)







subsection \<open>The insertion sort\<close>

lemma set_ins: "set (ins P x ys) = insert x (set ys)"
  by (induction ys) auto

lemma mset_ins: "mset (ins P x ys) = add_mset x (mset ys)"
  by (induction ys) auto

lemma set_isort: "set (isort P xs) = set xs"
  by (induction xs) (auto simp: set_ins)

lemma mset_isort: "mset (isort P xs) = mset xs"
  by (induction xs) (auto simp: mset_ins)

lemma length_isort: "length (isort P xs) = length xs"
  using mset_isort[of P xs] by (metis size_mset)

lemma insert_ins:
  assumes "wf_entry x" "\<forall>e\<in>set ys. wf_entry e"
    "\<forall>e\<in>set ys. is_str_key (e_key e) = is_str_key (e_key x)"
  shows "insert_entry x ys = Inr (ins lt_holds x ys)"
  using assms by (induction ys) (auto simp: lt_total)

lemma sorted_py_isort:
  assumes "\<forall>e\<in>set es. wf_entry e" "\<forall>e\<in>set es. is_str_key (e_key e) = k"
  shows "sorted_py es = Inr (isort lt_holds es)"
  using assms by (induction es) (auto simp: insert_ins set_isort)

lemma ins_insort:
  assumes "wf_entry x" "e_index x \<noteq> PNaN"
    "\<forall>e\<in>set ys. wf_entry e \<and> e_index e \<noteq> PNaN \<and> is_str_key (e_key e) = is_str_key (e_key x)"
  shows "ins lt_holds x ys = insort_key entry_ord x ys"
  using assms by (induction ys) (auto simp: lt_holds_ord)

lemma isort_sort_key:
  assumes "\<forall>e\<in>set es. wf_entry e \<and> e_index e \<noteq> PNaN \<and> is_str_key (e_key e) = k"
  shows "isort lt_holds es = sort_key entry_ord es"
  using assms by (induction es) (auto simp: ins_insort)

lemma rank_sorted_ins:
  assumes "sorted (map e_index_type ys)"
  shows "sorted (map e_index_type (ins lt_holds x ys))"
  using assms
proof (induction ys)
  case Nil
  then show ?case by simp
next
  case (Cons y ys)
  show ?case
  proof (cases "lt_holds y x")
    case True
    then have "e_index_type y \<le> e_index_type x" by (rule lt_holds_rank_le)
    with Cons True show ?thesis by (auto simp: set_ins)
  next
    case False
    then have "e_index_type x \<le> e_index_type y"
      using rank_less_lt_holds[of y x] leI by blast
    with Cons False show ?thesis by auto
  qed
qed

lemma rank_sorted_isort: "sorted (map e_index_type (isort lt_holds es))"
  by (induction es) (auto simp: rank_sorted_ins)

lemma successively_ins:
  assumes "successively (\<lambda>a b. \<not> P b a) ys" "\<forall>y\<in>set ys. P y x \<longrightarrow> \<not> P x y"
  shows "successively (\<lambda>a b. \<not> P b a) (ins P x ys)"
  using assms
proof (induction ys)
  case Nil
  then show ?case by simp
next
  case (Cons y ys)
  show ?case
  proof (cases "P y x")
    case False
    with Cons.prems show ?thesis by simp
  next
    case True
    from Cons have IH: "successively (\<lambda>a b. \<not> P b a) (ins P x ys)"
      by (auto simp: successively_Cons)
    from True Cons.prems have nxy: "\<not> P x y" by simp
    show ?thesis
    proof (cases ys)
      case Nil
      with True nxy show ?thesis by simp
    next
      case (Cons z zs)
      with Cons.prems(1) have "\<not> P z y" by simp
      with True nxy IH Cons show ?thesis by auto
    qed
  qed
qed

lemma successively_isort:
  assumes "\<forall>a\<in>set xs. \<forall>b\<in>set xs. P a b \<longrightarrow> \<not> P b a"
  shows "successively (\<lambda>a b. \<not> P b a) (isort P xs)"
  using assms
proof (induction xs)
  case Nil
  then show ?case by simp
next
  case (Cons x xs)
  then have "successively (\<lambda>a b. \<not> P b a) (isort P xs)" by simp
  moreover from Cons.prems have "\<forall>y\<in>set (isort P xs). P y x \<longrightarrow> \<not> P x y"
    by (simp add: set_isort)
  ultimately show ?case by (simp add: successively_ins)
qed

lemma isort_fixed: "successively (\<lambda>a b. \<not> P b a) xs \<Longrightarrow> isort P xs = xs"
proof (induction xs)
  case Nil
  then show ?case by simp
next
  case (Cons x xs)
  from Cons.prems have "successively (\<lambda>a b. \<not> P b a) xs" by (cases xs) simp_all
  then have "isort P xs = xs" by (rule Cons.IH)
  with Cons.prems show ?case by (cases xs) simp_all
qed

lemma successively_nth:
  "successively P xs \<longleftrightarrow> (\<forall>i. Suc i < length xs \<longrightarrow> P (xs ! i) (xs ! Suc i))"
proof (induction P xs rule: successively.induct)
  case (3 P x y xs)
  show ?case
  proof
    assume a: "successively P (x # y # xs)"
    show "\<forall>i. Suc i < length (x # y # xs) \<longrightarrow> P ((x # y # xs) ! i) ((x # y # xs) ! Suc i)"
    proof (intro allI impI)
      fix i assume "Suc i < length (x # y # xs)"
      with a 3 show "P ((x # y # xs) ! i) ((x # y # xs) ! Suc i)"
        by (cases i) auto
    qed
  next
    assume a: "\<forall>i. Suc i < length (x # y # xs) \<longrightarrow> P ((x # y # xs) ! i) ((x # y # xs) ! Suc i)"
    then have "P x y" by force
    moreover from a have "\<forall>i. Suc i < length (y # xs) \<longrightarrow> P ((y # xs) ! i) ((y # xs) ! Suc i)"
      by force
    ultimately show "successively P (x # y # xs)" using 3 by simp
  qed
qed simp_all

subsection \<open>The sorter\<close>

lemma sorted_py_entries:
  assumes "\<forall>k\<in>set (map fst kvs). is_str_key k = c"
  shows "sorted_py (entries_of ob kvs) = Inr (isort lt_holds (entries_of ob kvs))"
  using wf_entries kind_entries[OF assms] by (rule sorted_py_isort)

lemma entries_sort_key:
  assumes "\<forall>k\<in>set (map fst kvs). is_str_key k = c"
    "\<forall>e\<in>set (entries_of ob kvs). e_index e \<noteq> PNaN"
  shows "isort lt_holds (entries_of ob kvs) = sort_key entry_ord (entries_of ob kvs)"
  using wf_entries[of ob kvs] kind_entries[OF assms(1), of ob] assms(2)
  by (intro isort_sort_key[where k = c]) blast

lemma Sorter_result_dict:
  assumes "\<forall>k\<in>set (map fst kvs). is_str_key k = c"
  shows "Sorter_result (PDict kvs) ob =
    Inr (POrderedDict (map (\<lambda>e. (e_key e, e_value e)) (isort lt_holds (entries_of ob kvs))))"
  using sorted_py_entries[OF assms, of ob]
  by (simp add: Sorter_result_def Sorter_init_def Sorter_get_def)

lemma Sorter_result_odict:
  assumes "\<forall>k\<in>set (map fst kvs). is_str_key k = c"
  shows "Sorter_result (POrderedDict kvs) ob =
    Inr (POrderedDict (map (\<lambda>e. (e_key e, e_value e)) (isort lt_holds (entries_of ob kvs))))"
  using sorted_py_entries[OF assms, of ob]
  by (simp add: Sorter_result_def Sorter_init_def Sorter_get_def)

lemma Sorter_result_list:
  "Sorter_result (PList vs) ob =
    Inr (PList (map e_value (isort lt_holds (entries_of ob (enumerate_py vs)))))"
  using sorted_py_entries[OF is_str_key_enumerate, of ob vs]
  by (simp add: Sorter_result_def Sorter_init_def Sorter_get_def)

lemma mset_sorted_pairs:
  "mset (map (\<lambda>e. (e_key e, e_value e)) (isort lt_holds (entries_of ob kvs))) = mset kvs"
proof -
  have "mset (map (\<lambda>e. (e_key e, e_value e)) (isort lt_holds (entries_of ob kvs)))
      = mset (map (\<lambda>e. (e_key e, e_value e)) (entries_of ob kvs))"
    by (simp add: mset_isort)
  then show ?thesis by (simp only: key_value_entries)
qed

lemma mset_sorted_values:
  "mset (map e_value (isort lt_holds (entries_of ob (enumerate_py xs)))) = mset xs"
proof -
  have "mset (map e_value (isort lt_holds (entries_of ob (enumerate_py xs))))
      = mset (map e_value (entries_of ob (enumerate_py xs)))"
    by (simp add: mset_isort)
  then show ?thesis by (simp only: value_entries map_snd_enumerate)
qed

lemma rank_of_entries:
  assumes "ob \<noteq> ''$key''" "ob \<noteq> ''$priority''" "set es \<subseteq> set (entries_of ob kvs)"
  shows "map e_index_type es = map (\<lambda>e. get_index_type (value_index ob (e_value e))) es"
  using assms by (auto simp: entries_of_def index_type_init index_by_value e_value_init)

lemma Sorter_list_ranks:
  assumes "ob \<noteq> ''$key''" "ob \<noteq> ''$priority''"
  shows "\<exists>out. Sorter_result (PList xs) ob = Inr (PList out) \<and> mset out = mset xs
           \<and> sorted (map (\<lambda>v. get_index_type (value_index ob v)) out)"
proof -
  let ?es = "isort lt_holds (entries_of ob (enumerate_py xs))"
  let ?out = "map e_value ?es"
  have 1: "Sorter_result (PList xs) ob = Inr (PList ?out)"
    by (rule Sorter_result_list)
  have 2: "mset ?out = mset xs" by (rule mset_sorted_values)
  have "map (\<lambda>v. get_index_type (value_index ob v)) ?out
      = map (\<lambda>e. get_index_type (value_index ob (e_value e))) ?es"
    by simp
  also have "\<dots> = map e_index_type ?es"
    by (rule rank_of_entries[symmetric, OF assms, of _ "enumerate_py xs"]) (simp add: set_isort)
  finally have 3: "sorted (map (\<lambda>v. get_index_type (value_index ob v)) ?out)"
    by (simp only: rank_sorted_isort)
  from 1 2 3 show ?thesis by blast
qed

lemma Sorter_dict_ranks:
  assumes ob: "ob \<noteq> ''$key''" "ob \<noteq> ''$priority''"
    and k: "\<forall>k\<in>set (map fst kvs). is_str_key k = c"
  shows "\<exists>out. Sorter_result (PDict kvs) ob = Inr (POrderedDict out) \<and> mset out = mset kvs
           \<and> sorted (map (\<lambda>(k, v). get_index_type (value_index ob v)) out)"
proof -
  let ?es = "isort lt_holds (entries_of ob kvs)"
  let ?out = "map (\<lambda>e. (e_key e, e_value e)) ?es"
  have 1: "Sorter_result (PDict kvs) ob = Inr (POrderedDict ?out)"
    by (rule Sorter_result_dict[OF k])
  have 2: "mset ?out = mset kvs" by (rule mset_sorted_pairs)
  have "map (\<lambda>(k, v). get_index_type (value_index ob v)) ?out
      = map (\<lambda>e. get_index_type (value_index ob (e_value e))) ?es"
    by simp
  also have "\<dots> = map e_index_type ?es"
    by (rule rank_of_entries[symmetric, OF ob, of _ kvs]) (simp add: set_isort)
  finally have 3: "sorted (map (\<lambda>(k, v). get_index_type (value_index ob v)) ?out)"
    by (simp only: rank_sorted_isort)
  from 1 2 3 show ?thesis by blast
qed



subsection \<open>The order without NaN\<close>

lemma key_ord_inj: "is_str_key k = is_str_key k' \<Longrightarrow> key_ord k = key_ord k' \<Longrightarrow> k = k'"
  by (cases k; cases k') auto

lemma entry_ord_key: "entry_ord a = entry_ord b \<Longrightarrow> key_ord (e_key a) = key_ord (e_key b)"
  by (simp add: entry_ord_def)

lemma inj_entry_ord:
  assumes d: "distinct (map fst kvs)" and k: "\<forall>k\<in>set (map fst kvs). is_str_key k = kind"
  shows "inj_on entry_ord (set (entries_of ob kvs))"
proof (rule inj_onI)
  fix a b
  assume a: "a \<in> set (entries_of ob kvs)" and b: "b \<in> set (entries_of ob kvs)"
    and eq: "entry_ord a = entry_ord b"
  from a obtain ka va where a': "(ka, va) \<in> set kvs" "a = SortEntry_init ka va ob"
    by (auto simp: entries_of_def)
  from b obtain kb vb where b': "(kb, vb) \<in> set kvs" "b = SortEntry_init kb vb ob"
    by (auto simp: entries_of_def)
  from a'(1) have "ka \<in> set (map fst kvs)" by force
  moreover from b'(1) have "kb \<in> set (map fst kvs)" by force
  ultimately have "is_str_key ka = is_str_key kb" using k by blast
  moreover from eq have "key_ord ka = key_ord kb"
    using entry_ord_key[OF eq] by (simp add: a' b' e_key_init)
  ultimately have "ka = kb" by (rule key_ord_inj)
  with d a'(1) b'(1) have "va = vb" by (auto dest: eq_key_imp_eq_value)
  with \<open>ka = kb\<close> a' b' show "a = b" by simp
qed

lemma lt_entries:
  assumes k: "\<forall>k\<in>set (map fst kvs). is_str_key k = kind"
    and n: "\<forall>e\<in>set (entries_of ob kvs). e_index e \<noteq> PNaN"
    and a: "a \<in> set (entries_of ob kvs)" and b: "b \<in> set (entries_of ob kvs)"
  shows "SortEntry_lt a b = Inr (entry_ord a < entry_ord b)"
proof (rule lt_ord)
  from a show "wf_entry a" using wf_entries by blast
  from b show "wf_entry b" using wf_entries by blast
  from a b kind_entries[OF k, of ob]
  show "is_str_key (e_key a) = is_str_key (e_key b)" by simp
  from a n show "e_index a \<noteq> PNaN" by blast
  from b n show "e_index b \<noteq> PNaN" by blast
qed

lemma sorted_entries_strict:
  assumes d: "distinct (map fst kvs)" and k: "\<forall>k\<in>set (map fst kvs). is_str_key k = kind"
    and n: "\<forall>e\<in>set (entries_of ob kvs). e_index e \<noteq> PNaN"
  shows "sorted_wrt (\<lambda>x y. SortEntry_lt x y = Inr True)
           (isort lt_holds (entries_of ob kvs))"
proof -
  let ?es = "entries_of ob kvs"
  let ?r = "sort_key entry_ord ?es"
  from d have "distinct kvs" by (simp add: distinct_map)
  then have "distinct (map (\<lambda>e. (e_key e, e_value e)) ?es)"
    by (simp only: key_value_entries)
  then have de: "distinct ?es" by (simp add: distinct_map)
  have inj: "inj_on entry_ord (set ?r)" using inj_entry_ord[OF d k, of ob] by simp
  have "sorted (map entry_ord ?r)" by (rule sorted_sort_key)
  moreover have "distinct (map entry_ord ?r)"
    using de inj by (simp add: distinct_map)
  ultimately have "sorted_wrt (<) (map entry_ord ?r)" by (simp add: strict_sorted_iff)
  then have "sorted_wrt (\<lambda>x y. entry_ord x < entry_ord y) ?r" by (simp add: sorted_wrt_map)
  then have "sorted_wrt (\<lambda>x y. SortEntry_lt x y = Inr True) ?r"
  proof (rule sorted_wrt_mono_rel[rotated])
    fix x y assume "x \<in> set ?r" "y \<in> set ?r" "entry_ord x < entry_ord y"
    then show "SortEntry_lt x y = Inr True" using lt_entries[OF k n, of x y] by simp
  qed
  then show ?thesis by (simp only: entries_sort_key[OF k n])
qed

lemma sorted_pairs:
  assumes d: "distinct (map fst kvs)" and k: "\<forall>k\<in>set (map fst kvs). is_str_key k = kind"
    and n: "\<forall>e\<in>set (entries_of ob kvs). e_index e \<noteq> PNaN"
  shows "sorted_wrt (\<lambda>(k, v) (k', v').
            SortEntry_lt (SortEntry_init k v ob) (SortEntry_init k' v' ob) = Inr True)
           (map (\<lambda>e. (e_key e, e_value e)) (isort lt_holds (entries_of ob kvs)))"
proof -
  let ?r = "isort lt_holds (entries_of ob kvs)"
  have "sorted_wrt (\<lambda>x y. SortEntry_lt (SortEntry_init (e_key x) (e_value x) ob)
          (SortEntry_init (e_key y) (e_value y) ob) = Inr True) ?r"
  proof (rule sorted_wrt_mono_rel[rotated, OF sorted_entries_strict[OF d k n]])
    fix x y assume "x \<in> set ?r" "y \<in> set ?r" "SortEntry_lt x y = Inr True"
    then show "SortEntry_lt (SortEntry_init (e_key x) (e_value x) ob)
          (SortEntry_init (e_key y) (e_value y) ob) = Inr True"
      by (simp add: init_key_value_entry set_isort)
  qed
  then show ?thesis by (simp add: sorted_wrt_map)
qed

subsection \<open>Sorting a sorted result\<close>

lemma asym_entries:
  assumes k: "\<forall>k\<in>set (map fst kvs). is_str_key k = kind"
  shows "\<forall>a\<in>set (entries_of ob kvs). \<forall>b\<in>set (entries_of ob kvs).
           lt_holds a b \<longrightarrow> \<not> lt_holds b a"
proof (intro ballI impI)
  fix a b assume a: "a \<in> set (entries_of ob kvs)" and b: "b \<in> set (entries_of ob kvs)"
    and l: "lt_holds a b"
  from a b wf_entries have "wf_entry a" "wf_entry b" by blast+
  moreover from a b kind_entries[OF k, of ob]
  have "is_str_key (e_key a) = is_str_key (e_key b)" by simp
  ultimately show "\<not> lt_holds b a" using l by (rule lt_holds_asym)
qed

lemma Sorter_dict_idem:
  assumes k: "\<forall>k\<in>set (map fst kvs). is_str_key k = kind"
  shows "\<exists>y. Sorter_result (PDict kvs) ob = Inr y \<and> Sorter_result y ob = Inr y"
proof -
  define r where "r = isort lt_holds (entries_of ob kvs)"
  define out where "out = map (\<lambda>e. (e_key e, e_value e)) r"
  have 1: "Sorter_result (PDict kvs) ob = Inr (POrderedDict out)"
    unfolding out_def r_def by (rule Sorter_result_dict[OF k])
  have "mset out = mset kvs" unfolding out_def r_def by (rule mset_sorted_pairs)
  then have "set out = set kvs" by (rule mset_eq_setD)
  then have "set (map fst out) = set (map fst kvs)" by simp
  with k have k': "\<forall>k\<in>set (map fst out). is_str_key k = kind" by simp
  have e: "entries_of ob out = r"
    unfolding out_def by (rule entries_of_pairs[of _ ob kvs]) (simp add: r_def set_isort)
  have "successively (\<lambda>a b. \<not> lt_holds b a) r"
    unfolding r_def by (rule successively_isort) (rule asym_entries[OF k])
  then have "isort lt_holds r = r" by (rule isort_fixed)
  with Sorter_result_odict[OF k', of ob] e
  have 2: "Sorter_result (POrderedDict out) ob = Inr (POrderedDict out)"
    by (simp add: out_def)
  from 1 2 show ?thesis by blast
qed

lemma sorted_enumerate:
  assumes "\<And>i j. i < j \<Longrightarrow> j < length xs \<Longrightarrow>
             h (IntKey (int i), xs ! i) \<le> h (IntKey (int j), xs ! j)"
  shows "sorted (map h (enumerate_py xs))"
  unfolding sorted_map sorted_wrt_iff_nth_less
  using assms by (simp add: length_enumerate nth_enumerate)

lemma Sorter_list_by_key:
  assumes ob: "ob = ''$key'' \<or> ob = ''$priority''"
  shows "Sorter_result (PList xs) ob = Inr (PList xs)"
proof -
  let ?es = "entries_of ob (enumerate_py xs)"
  have n: "\<forall>e\<in>set ?es. e_index e \<noteq> PNaN"
  proof
    fix e assume "e \<in> set ?es"
    then obtain k v where "e = SortEntry_init k v ob" by (auto simp: entries_of_def)
    then show "e_index e \<noteq> PNaN" by (cases k) (simp_all add: index_by_key[OF ob])
  qed
  have "sorted (map (\<lambda>p. entry_ord (SortEntry_init (fst p) (snd p) ob)) (enumerate_py xs))"
    by (rule sorted_enumerate)
       (simp add: entry_ord_init index_by_key[OF ob] get_index_type_def type_defs)
  then have "sorted (map entry_ord ?es)" by (simp only: entries_of_fst_snd)
  then have "sort_key entry_ord ?es = ?es" by (rule sort_key_id_if_sorted)
  then have "isort lt_holds ?es = ?es"
    by (simp only: entries_sort_key[OF is_str_key_enumerate n])
  then have "map e_value (isort lt_holds ?es) = xs"
    by (simp only: value_entries map_snd_enumerate)
  with Sorter_result_list[of xs ob] show ?thesis by simp
qed

lemma lt_rekey_init:
  assumes ob: "ob \<noteq> ''$key''" "ob \<noteq> ''$priority''" and i: "i < i'"
    and l: "lt_holds (SortEntry_init (IntKey i') v' ob) (SortEntry_init (IntKey i) v ob)"
  shows "lt_holds (SortEntry_init (IntKey j') v' ob) (SortEntry_init (IntKey j) v ob)"
proof -
  let ?a = "SortEntry_init (IntKey j) v ob" and ?b = "SortEntry_init (IntKey j') v' ob"
  let ?a' = "SortEntry_init (IntKey i) v ob" and ?b' = "SortEntry_init (IntKey i') v' ob"
  have w: "wf_entry ?a" "wf_entry ?b" "wf_entry ?a'" "wf_entry ?b'"
    by (rule wf_entry_init)+
  have x: "e_index ?a' = e_index ?a" "e_index ?b' = e_index ?b"
    by (simp_all only: index_by_value[OF ob])
  have k: "e_key ?a = IntKey j" "e_key ?b = IntKey j'" "e_key ?a' = IntKey i"
    "e_key ?b' = IntKey i'"
    by (rule e_key_init)+
  from w x k i l show ?thesis by (rule lt_rekey)
qed

lemma Sorter_list_by_value:
  assumes ob: "ob \<noteq> ''$key''" "ob \<noteq> ''$priority''"
  shows "\<exists>y. Sorter_result (PList xs) ob = Inr y \<and> Sorter_result y ob = Inr y"
proof -
  define E where "E = entries_of ob (enumerate_py xs)"
  define r where "r = isort lt_holds E"
  define out where "out = map e_value r"
  define E' where "E' = entries_of ob (enumerate_py out)"
  have 1: "Sorter_result (PList xs) ob = Inr (PList out)"
    unfolding out_def r_def E_def by (rule Sorter_result_list)
  have sr: "successively (\<lambda>a b. \<not> lt_holds b a) r"
    unfolding r_def E_def
    by (rule successively_isort) (rule asym_entries[OF is_str_key_enumerate])
  have len: "length out = length r" "length E' = length out"
    by (simp_all add: out_def E'_def entries_of_def length_enumerate)
  have r_form: "\<exists>j. r ! i = SortEntry_init (IntKey j) (out ! i) ob" if "i < length r" for i
  proof -
    from that have "r ! i \<in> set r" by (rule nth_mem)
    then have "r ! i \<in> set E" by (simp only: r_def set_isort)
    then obtain k v where kv: "(k, v) \<in> set (enumerate_py xs)" "r ! i = SortEntry_init k v ob"
      unfolding E_def entries_of_def by auto
    from kv(1) have "k \<in> set (map fst (enumerate_py xs))" by force
    with is_str_key_enumerate have "\<not> is_str_key k" by blast
    then obtain j where j: "k = IntKey j" by (cases k) auto
    from that have "out ! i = e_value (r ! i)" by (simp add: out_def)
    then have "out ! i = v" by (simp only: kv(2) e_value_init)
    with j kv(2) show ?thesis by blast
  qed
  have E'_nth: "E' ! i = SortEntry_init (IntKey (int i)) (out ! i) ob" if "i < length out" for i
    using that by (simp add: E'_def entries_of_def length_enumerate nth_enumerate)
  have "successively (\<lambda>a b. \<not> lt_holds b a) E'"
    unfolding successively_nth
  proof (intro allI impI)
    fix i assume i: "Suc i < length E'"
    with len have i': "Suc i < length r" "i < length r" "Suc i < length out" "i < length out"
      by simp_all
    from r_form[OF i'(2)] obtain j where a: "r ! i = SortEntry_init (IntKey j) (out ! i) ob" ..
    from r_form[OF i'(1)] obtain j' where
      b: "r ! Suc i = SortEntry_init (IntKey j') (out ! Suc i) ob" ..
    from sr have "\<forall>i. Suc i < length r \<longrightarrow> \<not> lt_holds (r ! Suc i) (r ! i)"
      by (simp only: successively_nth)
    with i'(1) have nr: "\<not> lt_holds (r ! Suc i) (r ! i)" by blast
    show "\<not> lt_holds (E' ! Suc i) (E' ! i)"
    proof
      assume "lt_holds (E' ! Suc i) (E' ! i)"
      then have l: "lt_holds (SortEntry_init (IntKey (int (Suc i))) (out ! Suc i) ob)
          (SortEntry_init (IntKey (int i)) (out ! i) ob)"
        by (simp only: E'_nth[OF i'(3)] E'_nth[OF i'(4)])
      have "int i < int (Suc i)" by simp
      from lt_rekey_init[OF ob this l, of j' j]
      have "lt_holds (r ! Suc i) (r ! i)" by (simp only: a b)
      with nr show False ..
    qed
  qed
  then have "isort lt_holds E' = E'" by (rule isort_fixed)
  then have "map e_value (isort lt_holds E') = out"
    by (simp only: E'_def value_entries map_snd_enumerate)
  with Sorter_result_list[of out ob] have 2: "Sorter_result (PList out) ob = Inr (PList out)"
    by (simp add: E'_def)
  from 1 2 show ?thesis by blast
qed

subsection \<open>Paths\<close>

lemma Query_init_nonstr: "\<not> isinstance_str path \<Longrightarrow> Query_init path url = Inl ValueError"
  by (cases path) simp_all

lemma Query_init_empty: "\<not> py_truthy path \<Longrightarrow> Query_init path url = Inl ValueError"
  by (cases path) simp_all

lemma slash_not_reserved: "startswith_slash s \<Longrightarrow> s \<notin> set RESERVED_FILTERS"
  by (cases s) (auto simp: RESERVED_FILTERS_def)

lemma spec_walk_None: "spec_walk PNone segs = PNone"
  by (cases segs) simp_all

lemma extract_loop_spec: "extract_loop v segs = spec_walk v segs"
proof (induction segs arbitrary: v)
  case Nil
  show ?case by simp
next
  case (Cons seg segs)
  show ?case
    by (cases v) (simp_all add: dict_get_def Cons.IH spec_walk_None split: option.splits)
qed

lemma split_sep_no_sep: "c \<notin> set s \<Longrightarrow> split_sep c s = [s]"
  by (induction s) auto

lemma split_sep_append: "c \<notin> set s \<Longrightarrow> split_sep c (s @ c # t) = s # split_sep c t"
  by (induction s) auto

lemma split_join:
  assumes "segs \<noteq> []" "\<forall>seg\<in>set segs. c \<notin> set seg"
  shows "split_sep c (join_sep [c] segs) = segs"
  using assms
proof (induction segs)
  case Nil
  then show ?case by simp
next
  case (Cons s segs)
  show ?case
  proof (cases segs)
    case Nil
    with Cons.prems show ?thesis by (simp add: split_sep_no_sep)
  next
    case (Cons t ts)
    with Cons.prems Cons.IH have "split_sep c (join_sep [c] segs) = segs" by simp
    with Cons Cons.prems show ?thesis
      using split_sep_append[of c s "join_sep [c] segs"] by simp
  qed
qed

section \<open>Index type ranks\<close>

text \<open>
  Claim C1. \<open>get_index_type\<close> gives 0 to null, 1 to false, 2 to true, 3 to a number
  (also to NaN), 4 to a string and 5 to an array or an object. Under by-value ordering,
  the sorter returns, for an object with string keys and for an array, in whatever order
  the items arrive, a permutation of the items whose ranks ascend: null first, then
  false, true, numbers, strings and composites.
\<close>

theorem index_type_rank_order:
  "get_index_type PNone = 0
   \<and> get_index_type (PBool False) = 1
   \<and> get_index_type (PBool True) = 2
   \<and> get_index_type (PInt i) = 3
   \<and> get_index_type (PFloat r) = 3
   \<and> get_index_type PNaN = 3
   \<and> get_index_type (PStr s) = 4
   \<and> get_index_type (PList vs) = 5
   \<and> get_index_type (PDict kvs) = 5
   \<and> get_index_type (POrderedDict kvs) = 5
   \<and> (\<forall>items. (\<forall>k\<in>set (map fst items). is_str_key k) \<longrightarrow>
         (\<exists>out. Sorter_result (PDict items) ''$value'' = Inr (POrderedDict out)
            \<and> mset out = mset items
            \<and> sorted (map (\<lambda>(k, v). get_index_type v) out)))
   \<and> (\<forall>xs. \<exists>out. Sorter_result (PList xs) ''$value'' = Inr (PList out)
            \<and> mset out = mset xs
            \<and> sorted (map get_index_type out))"
proof -
  have ranks: "get_index_type PNone = 0" "get_index_type (PBool False) = 1"
    "get_index_type (PBool True) = 2" "get_index_type (PInt i) = 3"
    "get_index_type (PFloat r) = 3" "get_index_type PNaN = 3" "get_index_type (PStr s) = 4"
    "get_index_type (PList vs) = 5" "get_index_type (PDict kvs) = 5"
    "get_index_type (POrderedDict kvs) = 5"
    by (simp_all add: get_index_type_def type_defs)
  have ob: "''$value'' \<noteq> ''$key''" "''$value'' \<noteq> ''$priority''" by simp_all
  have vi: "value_index ''$value'' = (\<lambda>v. v)" by (simp add: value_index_def fun_eq_iff)
  have dict: "\<exists>out. Sorter_result (PDict items) ''$value'' = Inr (POrderedDict out)
            \<and> mset out = mset items \<and> sorted (map (\<lambda>(k, v). get_index_type v) out)"
    if str: "\<forall>k\<in>set (map fst items). is_str_key k" for items
  proof -
    from str have "\<forall>k\<in>set (map fst items). is_str_key k = True" by simp
    from Sorter_dict_ranks[OF ob this] show ?thesis by (simp only: vi)
  qed
  have list: "\<exists>out. Sorter_result (PList xs) ''$value'' = Inr (PList out)
            \<and> mset out = mset xs \<and> sorted (map get_index_type out)" for xs
    using Sorter_list_ranks[OF ob, of xs] by (simp only: vi)
  from ranks dict list show ?thesis by blast
qed

text \<open>
  The object \<^verbatim>\<open>{"p": {}, "q": "a", "r": 3, "s": true, "t": false, "u": null}\<close> has
  string keys, so its by-value result is a rank-ascending permutation; and the array
  \<^verbatim>\<open>[{}, "a", 3, true, false, null]\<close> sorts to \<^verbatim>\<open>[null, false, true, 3, "a", {}]\<close>.
\<close>

theorem index_type_rank_order_witness:
  "list_all is_str_key (map fst [(StrKey ''p'', PDict []), (StrKey ''q'', PStr ''a''),
        (StrKey ''r'', PInt 3), (StrKey ''s'', PBool True), (StrKey ''t'', PBool False),
        (StrKey ''u'', PNone)])
   \<and> (\<exists>out. Sorter_result (PDict [(StrKey ''p'', PDict []), (StrKey ''q'', PStr ''a''),
          (StrKey ''r'', PInt 3), (StrKey ''s'', PBool True), (StrKey ''t'', PBool False),
          (StrKey ''u'', PNone)]) ''$value'' = Inr (POrderedDict out)
        \<and> mset out = mset [(StrKey ''p'', PDict []), (StrKey ''q'', PStr ''a''),
          (StrKey ''r'', PInt 3), (StrKey ''s'', PBool True), (StrKey ''t'', PBool False),
          (StrKey ''u'', PNone)]
        \<and> sorted (map (\<lambda>(k, v). get_index_type v) out))
   \<and> Sorter_result (PList [PDict [], PStr ''a'', PInt 3, PBool True, PBool False, PNone])
        ''$value''
      = Inr (PList [PNone, PBool False, PBool True, PInt 3, PStr ''a'', PDict []])"
proof -
  let ?items = "[(StrKey ''p'', PDict []), (StrKey ''q'', PStr ''a''),
        (StrKey ''r'', PInt 3), (StrKey ''s'', PBool True), (StrKey ''t'', PBool False),
        (StrKey ''u'', PNone)]"
  have h: "\<forall>k\<in>set (map fst ?items). is_str_key k" by simp
  have "\<forall>items. (\<forall>k\<in>set (map fst items). is_str_key k) \<longrightarrow>
         (\<exists>out. Sorter_result (PDict items) ''$value'' = Inr (POrderedDict out)
            \<and> mset out = mset items
            \<and> sorted (map (\<lambda>(k, v). get_index_type v) out))"
    using index_type_rank_order[where i = 0 and r = 0 and s = "[]" and vs = "[]" and kvs = "[]"]
    by blast
  with h have e: "\<exists>out. Sorter_result (PDict ?items) ''$value'' = Inr (POrderedDict out)
            \<and> mset out = mset ?items
            \<and> sorted (map (\<lambda>(k, v). get_index_type v) out)"
    by blast
  have c: "Sorter_result (PList [PDict [], PStr ''a'', PInt 3, PBool True, PBool False, PNone])
        ''$value''
      = Inr (PList [PNone, PBool False, PBool True, PInt 3, PStr ''a'', PDict []])"
    by code_simp
  have l: "list_all is_str_key (map fst ?items)" by simp
  from l e c show ?thesis by blast
qed

text \<open>
  Claim C10. A boolean index is an instance of \<^verbatim>\<open>(int, float)\<close>, yet
  \<open>get_index_type\<close> gives it rank 1 or 2 and never the numeric rank 3. So, under any
  order key, an entry whose index is \<^verbatim>\<open>True\<close> compares below every entry whose index is
  a number, NaN included: the comparison gives -1 (and 1 the other way), never 0.
\<close>

theorem bool_rank_not_numeric:
  "isinstance_int_float (PBool b)
   \<and> get_index_type (PBool b) = (if b then 2 else 1)
   \<and> get_index_type (PBool b) \<noteq> type_numeric
   \<and> (\<forall>a c. a = SortEntry_init ka va ob \<and> c = SortEntry_init kc vc ob
          \<and> e_index a = PBool True
          \<and> (\<exists>i r. e_index c = PInt i \<or> e_index c = PFloat r \<or> e_index c = PNaN)
        \<longrightarrow> SortEntry_compare a c = Inr (- 1) \<and> SortEntry_compare c a = Inr 1
            \<and> SortEntry_lt a c = Inr True \<and> SortEntry_lt c a = Inr False)"
proof -
  have 1: "get_index_type (PBool b) = (if b then 2 else 1)"
    "get_index_type (PBool b) \<noteq> type_numeric"
    by (simp_all add: get_index_type_def type_defs)
  have 2: "SortEntry_compare a c = Inr (- 1) \<and> SortEntry_compare c a = Inr 1
            \<and> SortEntry_lt a c = Inr True \<and> SortEntry_lt c a = Inr False"
    if "wf_entry a" "wf_entry c" "e_index a = PBool True"
      "e_index c = PInt i \<or> e_index c = PFloat r \<or> e_index c = PNaN"
    for a c i r
    using that
    by (auto simp: wf_entry_def get_index_type_def type_defs SortEntry_lt_def
        SortEntry_compare_def compare_keys_def)
  from 1 2 show ?thesis by (auto simp: wf_entry_init)
qed

text \<open>The values \<^verbatim>\<open>True\<close> and \<^verbatim>\<open>1\<close> of an object, ordered by value.\<close>

theorem bool_rank_not_numeric_witness:
  "e_index (SortEntry_init (StrKey ''b'') (PBool True) ''$value'') = PBool True
   \<and> e_index (SortEntry_init (StrKey ''a'') (PInt 1) ''$value'') = PInt 1
   \<and> SortEntry_compare (SortEntry_init (StrKey ''b'') (PBool True) ''$value'')
        (SortEntry_init (StrKey ''a'') (PInt 1) ''$value'') = Inr (- 1)
   \<and> SortEntry_lt (SortEntry_init (StrKey ''a'') (PInt 1) ''$value'')
        (SortEntry_init (StrKey ''b'') (PBool True) ''$value'') = Inr False"
proof -
  have 1: "e_index (SortEntry_init (StrKey ''b'') (PBool True) ''$value'') = PBool True"
    by (simp add: SortEntry_init_def Let_def)
  have 2: "e_index (SortEntry_init (StrKey ''a'') (PInt 1) ''$value'') = PInt 1"
    by (simp add: SortEntry_init_def Let_def)
  from 1 2
    bool_rank_not_numeric[where b = True and ka = "StrKey ''b''" and va = "PBool True"
      and ob = "''$value''" and kc = "StrKey ''a''" and vc = "PInt 1"]
  show ?thesis by blast
qed

section \<open>Queries\<close>

text \<open>
  Claim C6. \<open>order_by_priority\<close> builds a query whose order key is \<^verbatim>\<open>$priority\<close>, and
  \<open>Query_run\<close> on a query with that order key returns the outcome of the request as it
  is, whether an object, an array or anything else: the sorter is not called.
\<close>

theorem priority_unchanged:
  "(\<exists>q. order_by_priority ref = Inr q \<and> order_by q = ''$priority'')
   \<and> (\<forall>q. order_by q = ''$priority'' \<longrightarrow> Query_run q response = response)"
proof -
  have "''$priority'' \<in> set RESERVED_FILTERS" by (simp add: RESERVED_FILTERS_def)
  then have 1: "order_by_priority ref =
      Inr \<lparr>order_by = ''$priority'', q_pathurl = add_suffix ref ''.json''\<rparr>"
    by (simp add: order_by_priority_def)
  have 2: "Query_run q response = response" if "order_by q = ''$priority''" for q
    using that by (simp add: Query_run_def split: sum.splits)
  from 1 2 show ?thesis by simp
qed

text \<open>The object \<^verbatim>\<open>{"c": 1, "a": 2, "b": 3}\<close> comes back in the order received.\<close>

theorem priority_unchanged_witness:
  "order_by \<lparr>order_by = ''$priority'', q_pathurl = ''/scores.json''\<rparr> = ''$priority''
   \<and> Query_run \<lparr>order_by = ''$priority'', q_pathurl = ''/scores.json''\<rparr>
        (Inr (PDict [(StrKey ''c'', PInt 1), (StrKey ''a'', PInt 2), (StrKey ''b'', PInt 3)]))
      = Inr (PDict [(StrKey ''c'', PInt 1), (StrKey ''a'', PInt 2), (StrKey ''b'', PInt 3)])"
proof -
  have h: "order_by \<lparr>order_by = ''$priority'', q_pathurl = ''/scores.json''\<rparr> = ''$priority''"
    by simp
  from h priority_unchanged[where ref = "\<lparr>segments = [], pathurl = ''/''\<rparr>"
      and response = "Inr (PDict [(StrKey ''c'', PInt 1), (StrKey ''a'', PInt 2),
        (StrKey ''b'', PInt 3)])"]
  show ?thesis by blast
qed

text \<open>
  Claim C8. \<open>order_by_child\<close> returns \<^verbatim>\<open>ValueError\<close>, and so no query on which
  \<open>Query_run\<close> could issue a request, when the path is empty or falsy, is not a string,
  is one of \<^verbatim>\<open>$key\<close>, \<^verbatim>\<open>$value\<close>, \<^verbatim>\<open>$priority\<close>, or begins with \<^verbatim>\<open>/\<close>; and
  \<open>Query_init\<close> itself rejects an empty or non-string order key and a child path that
  begins with \<^verbatim>\<open>/\<close>. Construction takes no response: only \<open>Query_run\<close> consumes one.
\<close>

theorem order_key_construction_errors:
  "(\<not> py_truthy path \<or> \<not> isinstance_str path \<longrightarrow>
      Query_init path url = Inl ValueError \<and> order_by_child ref path = Inl ValueError)
   \<and> (s \<in> set RESERVED_FILTERS \<longrightarrow> order_by_child ref (PStr s) = Inl ValueError)
   \<and> (startswith_slash s \<longrightarrow>
        Query_init (PStr s) url = Inl ValueError
        \<and> order_by_child ref (PStr s) = Inl ValueError)"
proof -
  have 1: "Query_init path u = Inl ValueError"
    if "\<not> py_truthy path \<or> \<not> isinstance_str path" for u
    using that Query_init_nonstr Query_init_empty by blast
  have 2: "order_by_child ref (PStr s) = Inl ValueError" if "s \<in> set RESERVED_FILTERS"
    using that by (simp add: order_by_child_def)
  have 3: "Query_init (PStr s) u = Inl ValueError" if "startswith_slash s" for u
    using that slash_not_reserved[OF that] by simp
  from 1 2 3 show ?thesis by (auto simp: order_by_child_def)
qed

text \<open>The reserved token \<^verbatim>\<open>$value\<close> as a child path.\<close>

theorem order_key_construction_errors_witness:
  "''$value'' \<in> set RESERVED_FILTERS
   \<and> order_by_child \<lparr>segments = [''users''], pathurl = ''/users''\<rparr> (PStr ''$value'')
       = Inl ValueError"
proof -
  have h: "''$value'' \<in> set RESERVED_FILTERS" by (simp add: RESERVED_FILTERS_def)
  from h order_key_construction_errors[where s = "''$value''" and path = PNone
      and ref = "\<lparr>segments = [''users''], pathurl = ''/users''\<rparr>" and url = "[]"]
  show ?thesis by blast
qed

section \<open>The comparison\<close>

text \<open>
  Claim C2. For two entries built by \<open>SortEntry_init\<close>, \<open>a\<close> precedes \<open>c\<close>
  (\<open>SortEntry_lt a c\<close>) as follows. If their index types differ: exactly when the index
  type of \<open>a\<close> is lower. If both are numeric and the indices differ in value: exactly
  when the index of \<open>a\<close> is the smaller number; NaN differs from every number and is
  smaller than none, nor is any number smaller than NaN. If both are strings and the
  indices differ: exactly when the index of \<open>a\<close> is the lexicographically smaller string.
  In every other case of equal index type (null, boolean or composite, or equal indices):
  exactly when the key of \<open>a\<close> is smaller, two string keys compared lexicographically
  and two integer keys numerically.
\<close>

theorem compare_cases:
  assumes a: "a = SortEntry_init ka va ob" and c: "c = SortEntry_init kc vc ob"
  shows
  "(e_index_type a \<noteq> e_index_type c \<longrightarrow>
      SortEntry_lt a c = Inr (e_index_type a < e_index_type c))
   \<and> (e_index_type a = type_numeric \<and> e_index_type c = type_numeric
        \<and> e_index a \<noteq> PNaN \<and> e_index c \<noteq> PNaN
        \<and> num_val (e_index a) \<noteq> num_val (e_index c) \<longrightarrow>
      SortEntry_lt a c = Inr (num_val (e_index a) < num_val (e_index c)))
   \<and> (e_index_type a = type_numeric \<and> e_index_type c = type_numeric
        \<and> (e_index a = PNaN \<or> e_index c = PNaN) \<longrightarrow>
      SortEntry_lt a c = Inr False)
   \<and> (e_index_type a = type_string \<and> e_index_type c = type_string
        \<and> e_index a \<noteq> e_index c \<longrightarrow>
      (\<exists>s t. e_index a = PStr s \<and> e_index c = PStr t \<and> SortEntry_lt a c = Inr (s < t)))
   \<and> (e_index_type a = e_index_type c
        \<and> (e_index_type a \<notin> {type_numeric, type_string}
           \<or> e_index_type a = type_numeric \<and> e_index a \<noteq> PNaN \<and> e_index c \<noteq> PNaN
               \<and> num_val (e_index a) = num_val (e_index c)
           \<or> e_index_type a = type_string \<and> e_index a = e_index c) \<longrightarrow>
      (\<forall>s t. ka = StrKey s \<and> kc = StrKey t \<longrightarrow> SortEntry_lt a c = Inr (s < t))
      \<and> (\<forall>i j. ka = IntKey i \<and> kc = IntKey j \<longrightarrow> SortEntry_lt a c = Inr (i < j)))"
proof -
  have wf: "wf_entry a" "wf_entry c" by (simp_all add: a c wf_entry_init)
  have k: "e_key a = ka" "e_key c = kc" by (simp_all add: a c e_key_init)
  have 1: "e_index_type a \<noteq> e_index_type c \<longrightarrow>
      SortEntry_lt a c = Inr (e_index_type a < e_index_type c)"
    by (simp add: lt_rank_differs)
  have 2: "e_index_type a = type_numeric \<and> e_index_type c = type_numeric
        \<and> e_index a \<noteq> PNaN \<and> e_index c \<noteq> PNaN
        \<and> num_val (e_index a) \<noteq> num_val (e_index c) \<longrightarrow>
      SortEntry_lt a c = Inr (num_val (e_index a) < num_val (e_index c))"
    using lt_numeric[OF wf] by blast
  have 3: "e_index_type a = type_numeric \<and> e_index_type c = type_numeric
        \<and> (e_index a = PNaN \<or> e_index c = PNaN) \<longrightarrow>
      SortEntry_lt a c = Inr False"
    using lt_nan[OF wf] by blast
  have 4: "e_index_type a = type_string \<and> e_index_type c = type_string
        \<and> e_index a \<noteq> e_index c \<longrightarrow>
      (\<exists>s t. e_index a = PStr s \<and> e_index c = PStr t \<and> SortEntry_lt a c = Inr (s < t))"
    using lt_string[OF wf] by blast
  have 5: "(\<forall>s t. ka = StrKey s \<and> kc = StrKey t \<longrightarrow> SortEntry_lt a c = Inr (s < t))
      \<and> (\<forall>i j. ka = IntKey i \<and> kc = IntKey j \<longrightarrow> SortEntry_lt a c = Inr (i < j))"
    if "e_index_type a = e_index_type c"
      "e_index_type a \<notin> {type_numeric, type_string}
           \<or> e_index_type a = type_numeric \<and> e_index a \<noteq> PNaN \<and> e_index c \<noteq> PNaN
               \<and> num_val (e_index a) = num_val (e_index c)
           \<or> e_index_type a = type_string \<and> e_index a = e_index c"
    using lt_by_key[OF wf that] by (auto simp: k)
  from 1 2 3 4 5 show ?thesis by blast
qed

text \<open>
  The object \<^verbatim>\<open>{"b": 5, "a": 5}\<close> ordered by value: equal numeric indices, so the
  keys decide and \<^verbatim>\<open>a\<close> comes first.
\<close>

theorem compare_cases_witness:
  "e_index_type (SortEntry_init (StrKey ''a'') (PInt 5) ''$value'') = type_numeric
   \<and> e_index_type (SortEntry_init (StrKey ''b'') (PInt 5) ''$value'') = type_numeric
   \<and> SortEntry_lt (SortEntry_init (StrKey ''a'') (PInt 5) ''$value'')
        (SortEntry_init (StrKey ''b'') (PInt 5) ''$value'') = Inr True
   \<and> Sorter_result (PDict [(StrKey ''b'', PInt 5), (StrKey ''a'', PInt 5)]) ''$value''
      = Inr (POrderedDict [(StrKey ''a'', PInt 5), (StrKey ''b'', PInt 5)])"
proof -
  let ?a = "SortEntry_init (StrKey ''a'') (PInt 5) ''$value''"
  let ?c = "SortEntry_init (StrKey ''b'') (PInt 5) ''$value''"
  have t: "e_index_type ?a = type_numeric" "e_index_type ?c = type_numeric"
    by (simp_all add: SortEntry_init_def Let_def get_index_type_def type_defs)
  have n: "num_val (e_index ?a) = num_val (e_index ?c)"
    "e_index ?a \<noteq> PNaN" "e_index ?c \<noteq> PNaN"
    by (simp_all add: SortEntry_init_def Let_def)
  have l: "(''a'' < ''b'') = True" by simp
  have s: "Sorter_result (PDict [(StrKey ''b'', PInt 5), (StrKey ''a'', PInt 5)]) ''$value''
      = Inr (POrderedDict [(StrKey ''a'', PInt 5), (StrKey ''b'', PInt 5)])"
    by code_simp
  from compare_cases[OF refl refl, of "StrKey ''a''" "PInt 5" "''$value''" "StrKey ''b''" "PInt 5"] t n
  have "SortEntry_lt ?a ?c = Inr (''a'' < ''b'')" by simp
  with t l s show ?thesis by simp
qed

section \<open>Child paths\<close>

text \<open>
  Claim C5. \<open>extract_child\<close> splits the path on \<^verbatim>\<open>/\<close> and walks the value as the
  specification words it, \<open>spec_walk\<close>, one nested object per segment and for any
  number of segments; where a value on the way is not an object or lacks the key, the
  index is null. Under by-child ordering the index of an entry is that extracted value,
  an entry whose index is null precedes every entry whose index is not, and the sorted
  array has ascending ranks, so all null-indexed items come first.
\<close>

theorem extract_child_walk:
  "extract_child v p = spec_walk v (split_sep CHR ''/'' p)
   \<and> (segs \<noteq> [] \<and> (\<forall>seg\<in>set segs. CHR ''/'' \<notin> set seg) \<longrightarrow>
        extract_child v (join_sep ''/'' segs) = spec_walk v segs)
   \<and> (p \<notin> set RESERVED_FILTERS \<longrightarrow>
        e_index (SortEntry_init k v p) = extract_child v p
        \<and> (extract_child va p = PNone \<and> extract_child vc p \<noteq> PNone \<longrightarrow>
             SortEntry_lt (SortEntry_init ka va p) (SortEntry_init kc vc p) = Inr True
             \<and> SortEntry_lt (SortEntry_init kc vc p) (SortEntry_init ka va p) = Inr False)
        \<and> (\<exists>out. Sorter_result (PList xs) p = Inr (PList out) \<and> mset out = mset xs
             \<and> sorted (map (\<lambda>x. get_index_type (extract_child x p)) out)))"
proof -
  have 1: "extract_child v p = spec_walk v (split_sep CHR ''/'' p)" for v p
    by (simp add: extract_child_def extract_loop_spec)
  have 2: "extract_child v (join_sep ''/'' segs) = spec_walk v segs"
    if "segs \<noteq> []" "\<forall>seg\<in>set segs. CHR ''/'' \<notin> set seg"
    using split_join[OF that] by (simp add: 1)
  have 3: "SortEntry_lt (SortEntry_init ka va p) (SortEntry_init kc vc p) = Inr True
             \<and> SortEntry_lt (SortEntry_init kc vc p) (SortEntry_init ka va p) = Inr False"
    if "p \<notin> set RESERVED_FILTERS" "extract_child va p = PNone" "extract_child vc p \<noteq> PNone"
    using that by (intro none_before_other) (simp_all add: wf_entry_init index_by_child)
  have 4: "\<exists>out. Sorter_result (PList xs) p = Inr (PList out) \<and> mset out = mset xs
             \<and> sorted (map (\<lambda>x. get_index_type (extract_child x p)) out)"
    if r: "p \<notin> set RESERVED_FILTERS"
  proof -
    from r have ne: "p \<noteq> ''$key''" "p \<noteq> ''$priority''" "p \<noteq> ''$value''"
      by (auto simp: RESERVED_FILTERS_def)
    then have "value_index p = (\<lambda>x. extract_child x p)"
      by (simp add: value_index_def fun_eq_iff)
    with Sorter_list_ranks[OF ne(1,2), of xs] show ?thesis by simp
  qed
  from 1 2 3 4 show ?thesis by (simp add: index_by_child)
qed

text \<open>
  Three levels deep, \<^verbatim>\<open>a/b/c\<close> reaches 7; a missing key and a non-object give null;
  and the items without a child \<^verbatim>\<open>x\<close> sort before the one that has it.
\<close>

theorem extract_child_walk_witness:
  "extract_child (PDict [(StrKey ''a'', PDict [(StrKey ''b'', PDict [(StrKey ''c'', PInt 7)])])])
      (join_sep ''/'' [''a'', ''b'', ''c''])
     = spec_walk (PDict [(StrKey ''a'', PDict [(StrKey ''b'', PDict [(StrKey ''c'', PInt 7)])])])
         [''a'', ''b'', ''c'']
   \<and> extract_child (PDict [(StrKey ''a'', PDict [(StrKey ''b'', PDict [(StrKey ''c'', PInt 7)])])])
        ''a/b/c'' = PInt 7
   \<and> extract_child (PDict [(StrKey ''y'', PInt 0)]) ''x'' = PNone
   \<and> extract_child (PInt 4) ''x'' = PNone
   \<and> SortEntry_lt (SortEntry_init (IntKey 1) (PDict [(StrKey ''y'', PInt 0)]) ''x'')
        (SortEntry_init (IntKey 0) (PDict [(StrKey ''x'', PInt 1)]) ''x'') = Inr True
   \<and> Sorter_result (PList [PDict [(StrKey ''x'', PInt 1)], PInt 4, PDict [(StrKey ''y'', PInt 0)]])
        ''x''
      = Inr (PList [PInt 4, PDict [(StrKey ''y'', PInt 0)], PDict [(StrKey ''x'', PInt 1)]])"
proof -
  let ?v = "PDict [(StrKey ''a'', PDict [(StrKey ''b'', PDict [(StrKey ''c'', PInt 7)])])]"
  have h1: "[''a'', ''b'', ''c''] \<noteq> [] \<and> (\<forall>seg\<in>set [''a'', ''b'', ''c'']. CHR ''/'' \<notin> set seg)"
    by simp
  have h2: "''x'' \<notin> set RESERVED_FILTERS" by (simp add: RESERVED_FILTERS_def)
  have h3: "extract_child (PDict [(StrKey ''y'', PInt 0)]) ''x'' = PNone" by code_simp
  have h4: "extract_child (PDict [(StrKey ''x'', PInt 1)]) ''x'' \<noteq> PNone" by code_simp
  have e1: "extract_child ?v ''a/b/c'' = PInt 7" by code_simp
  have e2: "extract_child (PInt 4) ''x'' = PNone" by code_simp
  have e3: "Sorter_result (PList [PDict [(StrKey ''x'', PInt 1)], PInt 4,
        PDict [(StrKey ''y'', PInt 0)]]) ''x''
      = Inr (PList [PInt 4, PDict [(StrKey ''y'', PInt 0)], PDict [(StrKey ''x'', PInt 1)]])"
    by code_simp
  from h1 h2 h3 h4 e1 e2 e3
    extract_child_walk[where v = ?v and p = "''x''" and segs = "[''a'', ''b'', ''c'']"
      and va = "PDict [(StrKey ''y'', PInt 0)]" and vc = "PDict [(StrKey ''x'', PInt 1)]"
      and ka = "IntKey 1" and kc = "IntKey 0" and k = "IntKey 0" and xs = "[]"]
  show ?thesis by blast
qed

section \<open>Unsortable results\<close>



section \<open>The order of a collection\<close>

text \<open>
  Claim C3, as the code has it. Take the entries \<open>es\<close> built from a collection whose keys
  are pairwise distinct and of one kind (all strings, or all integers) and none of whose
  indices is NaN. On \<open>es\<close> the comparison never raises and \<open>SortEntry_lt\<close> is a strict
  total order: irreflexive, asymmetric, transitive, and any two distinct entries are
  ordered one way or the other. So \<open>sorted_py\<close> returns a permutation of \<open>es\<close> that is
  strictly ascending, and it returns that same sequence for every other iteration order
  of the collection.
\<close>

theorem compare_strict_total_order:
  assumes d: "distinct (map fst kvs)"
    and k: "\<forall>k\<in>set (map fst kvs). is_str_key k = kind"
    and es: "es = entries_of ob kvs"
    and n: "\<forall>e\<in>set es. e_index e \<noteq> PNaN"
  shows "(\<forall>a\<in>set es. SortEntry_lt a a = Inr False)
   \<and> (\<forall>a\<in>set es. \<forall>b\<in>set es. SortEntry_lt a b = Inr True \<longrightarrow> SortEntry_lt b a = Inr False)
   \<and> (\<forall>a\<in>set es. \<forall>b\<in>set es. \<forall>c\<in>set es.
         SortEntry_lt a b = Inr True \<and> SortEntry_lt b c = Inr True
         \<longrightarrow> SortEntry_lt a c = Inr True)
   \<and> (\<forall>a\<in>set es. \<forall>b\<in>set es.
         a \<noteq> b \<longrightarrow> SortEntry_lt a b = Inr True \<or> SortEntry_lt b a = Inr True)
   \<and> (\<exists>r. sorted_py es = Inr r \<and> mset r = mset es
         \<and> sorted_wrt (\<lambda>x y. SortEntry_lt x y = Inr True) r
         \<and> (\<forall>kvs'. mset kvs' = mset kvs \<longrightarrow> sorted_py (entries_of ob kvs') = Inr r))"
proof -
  from n have n': "\<forall>e\<in>set (entries_of ob kvs). e_index e \<noteq> PNaN" by (simp add: es)
  have lt: "SortEntry_lt a b = Inr (entry_ord a < entry_ord b)"
    if "a \<in> set es" "b \<in> set es" for a b
    using that lt_entries[OF k n', of a b] by (simp add: es)
  have inj: "inj_on entry_ord (set es)"
    using inj_entry_ord[OF d k, of ob] by (simp add: es)
  have irrefl: "\<forall>a\<in>set es. SortEntry_lt a a = Inr False"
    by (simp add: lt)
  have asym: "\<forall>a\<in>set es. \<forall>b\<in>set es.
      SortEntry_lt a b = Inr True \<longrightarrow> SortEntry_lt b a = Inr False"
    by (auto simp: lt)
  have trans: "\<forall>a\<in>set es. \<forall>b\<in>set es. \<forall>c\<in>set es.
         SortEntry_lt a b = Inr True \<and> SortEntry_lt b c = Inr True
         \<longrightarrow> SortEntry_lt a c = Inr True"
    by (auto simp: lt)
  have total: "\<forall>a\<in>set es. \<forall>b\<in>set es.
         a \<noteq> b \<longrightarrow> SortEntry_lt a b = Inr True \<or> SortEntry_lt b a = Inr True"
  proof (intro ballI impI)
    fix a b assume ab: "a \<in> set es" "b \<in> set es" "a \<noteq> b"
    with inj have "entry_ord a \<noteq> entry_ord b" by (auto dest: inj_onD)
    then have "entry_ord a < entry_ord b \<or> entry_ord b < entry_ord a" by auto
    with ab show "SortEntry_lt a b = Inr True \<or> SortEntry_lt b a = Inr True"
      by (simp add: lt)
  qed
  let ?r = "sort_key entry_ord es"
  have r: "isort lt_holds es = ?r"
    using entries_sort_key[OF k n'] by (simp add: es)
  have s1: "sorted_py es = Inr ?r"
    using sorted_py_entries[OF k, of ob] r by (simp add: es)
  have s2: "mset ?r = mset es" by simp
  have s3: "sorted_wrt (\<lambda>x y. SortEntry_lt x y = Inr True) ?r"
    using sorted_entries_strict[OF d k n'] r by (simp add: es)
  have s4: "sorted_py (entries_of ob kvs') = Inr ?r" if m: "mset kvs' = mset kvs" for kvs'
  proof -
    from m have "set kvs' = set kvs" by (rule mset_eq_setD)
    with k have k': "\<forall>k\<in>set (map fst kvs'). is_str_key k = kind" by simp
    have me: "mset (entries_of ob kvs') = mset es"
      using mset_entries_of[OF m, of ob] by (simp add: es)
    then have se: "set (entries_of ob kvs') = set es" by (rule mset_eq_setD)
    with n have nk: "\<forall>e\<in>set (entries_of ob kvs'). e_index e \<noteq> PNaN" by simp
    from se inj have "inj_on entry_ord (set (entries_of ob kvs'))" by simp
    with me have "sort_key entry_ord (entries_of ob kvs') = ?r"
      by (rule sort_key_eq_sort_key)
    with sorted_py_entries[OF k', of ob] entries_sort_key[OF k' nk] show ?thesis by simp
  qed
  from s1 s2 s3 s4 have "\<exists>r. sorted_py es = Inr r \<and> mset r = mset es
         \<and> sorted_wrt (\<lambda>x y. SortEntry_lt x y = Inr True) r
         \<and> (\<forall>kvs'. mset kvs' = mset kvs \<longrightarrow> sorted_py (entries_of ob kvs') = Inr r)"
    by blast
  with irrefl asym trans total show ?thesis by blast
qed

text \<open>
  The object \<^verbatim>\<open>{"b": 5, "a": 5, "c": null}\<close> by value: its entries sort to one strictly
  ascending sequence, the same when the items arrive as \<^verbatim>\<open>c, a, b\<close>.
\<close>

theorem compare_strict_total_order_witness:
  "distinct (map fst [(StrKey ''b'', PInt 5), (StrKey ''a'', PInt 5), (StrKey ''c'', PNone)])
   \<and> list_all (\<lambda>k. is_str_key k = True)
        (map fst [(StrKey ''b'', PInt 5), (StrKey ''a'', PInt 5), (StrKey ''c'', PNone)])
   \<and> list_all (\<lambda>e. e_index e \<noteq> PNaN) (entries_of ''$value''
        [(StrKey ''b'', PInt 5), (StrKey ''a'', PInt 5), (StrKey ''c'', PNone)])
   \<and> (\<exists>r. sorted_py (entries_of ''$value''
              [(StrKey ''b'', PInt 5), (StrKey ''a'', PInt 5), (StrKey ''c'', PNone)]) = Inr r
        \<and> sorted_wrt (\<lambda>x y. SortEntry_lt x y = Inr True) r
        \<and> sorted_py (entries_of ''$value''
              [(StrKey ''c'', PNone), (StrKey ''a'', PInt 5), (StrKey ''b'', PInt 5)]) = Inr r)
   \<and> SortEntry_lt (SortEntry_init (StrKey ''a'') (PInt 5) ''$value'')
        (SortEntry_init (StrKey ''a'') (PInt 5) ''$value'') = Inr False"
proof -
  let ?kvs = "[(StrKey ''b'', PInt 5), (StrKey ''a'', PInt 5), (StrKey ''c'', PNone)]"
  let ?kvs' = "[(StrKey ''c'', PNone), (StrKey ''a'', PInt 5), (StrKey ''b'', PInt 5)]"
  have d: "distinct (map fst ?kvs)" by simp
  have k: "\<forall>k\<in>set (map fst ?kvs). is_str_key k = True" by simp
  have l: "list_all (\<lambda>k. is_str_key k = True) (map fst ?kvs)" by simp
  have ln: "list_all (\<lambda>e. e_index e \<noteq> PNaN) (entries_of ''$value'' ?kvs)"
    by (simp add: entries_of_def SortEntry_init_def Let_def)
  then have n: "\<forall>e\<in>set (entries_of ''$value'' ?kvs). e_index e \<noteq> PNaN"
    by (simp only: list_all_iff)
  have m: "mset ?kvs' = mset ?kvs" by (simp add: add.commute)
  have a: "SortEntry_init (StrKey ''a'') (PInt 5) ''$value'' \<in> set (entries_of ''$value'' ?kvs)"
    by (simp add: entries_of_def)
  note t = compare_strict_total_order[OF d k refl n]
  from t m have "\<exists>r. sorted_py (entries_of ''$value'' ?kvs) = Inr r
        \<and> sorted_wrt (\<lambda>x y. SortEntry_lt x y = Inr True) r
        \<and> sorted_py (entries_of ''$value'' ?kvs') = Inr r"
    by blast
  moreover from t a have "SortEntry_lt (SortEntry_init (StrKey ''a'') (PInt 5) ''$value'')
        (SortEntry_init (StrKey ''a'') (PInt 5) ''$value'') = Inr False"
    by blast
  ultimately show ?thesis using d l ln by blast
qed

text \<open>
  The claim as stated fails at the object \<^verbatim>\<open>{"a": 2, "b": NaN, "c": 1}\<close> ordered by
  value. Its keys are distinct strings, yet the distinct entries \<^verbatim>\<open>b\<close> and \<^verbatim>\<open>c\<close> are
  not ordered: NaN differs from 1 and is neither smaller nor greater, so the comparison
  gives 0 both ways. Likewise \<^verbatim>\<open>a\<close> and \<^verbatim>\<open>b\<close> are not ordered, although \<^verbatim>\<open>c\<close>
  precedes \<^verbatim>\<open>a\<close>. In neither arrangement of the three items is an entry smaller than
  its predecessor, so sorting returns the items as they arrive: two different sequences
  for the two iteration orders.
\<close>

theorem nan_index_counterexample:
  "distinct (map fst [(StrKey ''a'', PInt 2), (StrKey ''b'', PNaN), (StrKey ''c'', PInt 1)])
   \<and> list_all is_str_key
        (map fst [(StrKey ''a'', PInt 2), (StrKey ''b'', PNaN), (StrKey ''c'', PInt 1)])
   \<and> SortEntry_init (StrKey ''b'') PNaN ''$value''
        \<noteq> SortEntry_init (StrKey ''c'') (PInt 1) ''$value''
   \<and> SortEntry_compare (SortEntry_init (StrKey ''b'') PNaN ''$value'')
        (SortEntry_init (StrKey ''c'') (PInt 1) ''$value'') = Inr 0
   \<and> SortEntry_compare (SortEntry_init (StrKey ''c'') (PInt 1) ''$value'')
        (SortEntry_init (StrKey ''b'') PNaN ''$value'') = Inr 0
   \<and> SortEntry_lt (SortEntry_init (StrKey ''b'') PNaN ''$value'')
        (SortEntry_init (StrKey ''c'') (PInt 1) ''$value'') = Inr False
   \<and> SortEntry_lt (SortEntry_init (StrKey ''c'') (PInt 1) ''$value'')
        (SortEntry_init (StrKey ''b'') PNaN ''$value'') = Inr False
   \<and> SortEntry_lt (SortEntry_init (StrKey ''c'') (PInt 1) ''$value'')
        (SortEntry_init (StrKey ''a'') (PInt 2) ''$value'') = Inr True
   \<and> SortEntry_lt (SortEntry_init (StrKey ''a'') (PInt 2) ''$value'')
        (SortEntry_init (StrKey ''b'') PNaN ''$value'') = Inr False
   \<and> SortEntry_lt (SortEntry_init (StrKey ''b'') PNaN ''$value'')
        (SortEntry_init (StrKey ''a'') (PInt 2) ''$value'') = Inr False
   \<and> Sorter_result (PDict [(StrKey ''a'', PInt 2), (StrKey ''b'', PNaN), (StrKey ''c'', PInt 1)])
        ''$value''
      = Inr (POrderedDict [(StrKey ''a'', PInt 2), (StrKey ''b'', PNaN), (StrKey ''c'', PInt 1)])
   \<and> Sorter_result (PDict [(StrKey ''c'', PInt 1), (StrKey ''b'', PNaN), (StrKey ''a'', PInt 2)])
        ''$value''
      = Inr (POrderedDict [(StrKey ''c'', PInt 1), (StrKey ''b'', PNaN), (StrKey ''a'', PInt 2)])"
proof -
  let ?a = "SortEntry_init (StrKey ''a'') (PInt 2) ''$value''"
  let ?b = "SortEntry_init (StrKey ''b'') PNaN ''$value''"
  let ?c = "SortEntry_init (StrKey ''c'') (PInt 1) ''$value''"
  have 1: "distinct (map fst [(StrKey ''a'', PInt 2), (StrKey ''b'', PNaN), (StrKey ''c'', PInt 1)])"
    by simp
  have 2: "list_all is_str_key
        (map fst [(StrKey ''a'', PInt 2), (StrKey ''b'', PNaN), (StrKey ''c'', PInt 1)])"
    by simp
  have 3: "?b \<noteq> ?c" by (simp add: SortEntry_init_def Let_def)
  have 4: "SortEntry_compare ?b ?c = Inr 0" "SortEntry_compare ?c ?b = Inr 0"
    by code_simp+
  have 5: "SortEntry_lt ?b ?c = Inr False" "SortEntry_lt ?c ?b = Inr False"
    "SortEntry_lt ?c ?a = Inr True" "SortEntry_lt ?a ?b = Inr False"
    "SortEntry_lt ?b ?a = Inr False"
    by code_simp+
  have 6: "Sorter_result (PDict [(StrKey ''a'', PInt 2), (StrKey ''b'', PNaN),
        (StrKey ''c'', PInt 1)]) ''$value''
      = Inr (POrderedDict [(StrKey ''a'', PInt 2), (StrKey ''b'', PNaN), (StrKey ''c'', PInt 1)])"
    by code_simp
  have 7: "Sorter_result (PDict [(StrKey ''c'', PInt 1), (StrKey ''b'', PNaN),
        (StrKey ''a'', PInt 2)]) ''$value''
      = Inr (POrderedDict [(StrKey ''c'', PInt 1), (StrKey ''b'', PNaN), (StrKey ''a'', PInt 2)])"
    by code_simp
  from 1 2 3 4 5 6 7 show ?thesis by blast
qed

section \<open>The shape of the result\<close>

text \<open>
  Claim C4. For a query whose order key is not \<^verbatim>\<open>$priority\<close>: on an object with
  distinct string keys \<open>Query_run\<close> returns an \<^verbatim>\<open>OrderedDict\<close> holding exactly the pairs
  of the object, in the order in which \<open>sorted_py\<close> returned their entries; on an array
  it returns the list of the values of the enumerated pairs, in the order in which
  \<open>sorted_py\<close> returned their entries, the positions dropped. That order is strictly
  ascending in the comparison when no index is NaN.
\<close>

theorem sorter_output_shape:
  assumes np: "order_by q \<noteq> ''$priority''"
  shows "(distinct (map fst kvs) \<and> (\<forall>k\<in>set (map fst kvs). is_str_key k) \<longrightarrow>
      (\<exists>out es. Query_run q (Inr (PDict kvs)) = Inr (POrderedDict out) \<and> mset out = mset kvs
        \<and> sorted_py (entries_of (order_by q) kvs) = Inr es
        \<and> out = map (\<lambda>e. (e_key e, e_value e)) es
        \<and> ((\<forall>e\<in>set es. e_index e \<noteq> PNaN) \<longrightarrow>
             sorted_wrt (\<lambda>(k, v) (k', v').
               SortEntry_lt (SortEntry_init k v (order_by q))
                 (SortEntry_init k' v' (order_by q)) = Inr True) out)))
   \<and> (\<exists>ps es. mset ps = mset (enumerate_py xs)
        \<and> sorted_py (entries_of (order_by q) (enumerate_py xs)) = Inr es
        \<and> ps = map (\<lambda>e. (e_key e, e_value e)) es
        \<and> Query_run q (Inr (PList xs)) = Inr (PList (map snd ps))
        \<and> ((\<forall>e\<in>set es. e_index e \<noteq> PNaN) \<longrightarrow>
             sorted_wrt (\<lambda>(k, v) (k', v').
               SortEntry_lt (SortEntry_init k v (order_by q))
                 (SortEntry_init k' v' (order_by q)) = Inr True) ps))"
proof -
  let ?ob = "order_by q"
  let ?kv = "\<lambda>e. (e_key e, e_value e)"
  have dict: "\<exists>out es. Query_run q (Inr (PDict kvs)) = Inr (POrderedDict out)
        \<and> mset out = mset kvs
        \<and> sorted_py (entries_of ?ob kvs) = Inr es \<and> out = map ?kv es
        \<and> ((\<forall>e\<in>set es. e_index e \<noteq> PNaN) \<longrightarrow>
             sorted_wrt (\<lambda>(k, v) (k', v').
               SortEntry_lt (SortEntry_init k v ?ob) (SortEntry_init k' v' ?ob) = Inr True) out)"
    if d: "distinct (map fst kvs)" and s: "\<forall>k\<in>set (map fst kvs). is_str_key k"
  proof -
    from s have k: "\<forall>k\<in>set (map fst kvs). is_str_key k = True" by simp
    let ?es = "isort lt_holds (entries_of ?ob kvs)"
    let ?out = "map ?kv ?es"
    have 1: "Query_run q (Inr (PDict kvs)) = Inr (POrderedDict ?out)"
      using np Sorter_result_dict[OF k, of ?ob] by (simp add: Query_run_def)
    have 2: "mset ?out = mset kvs" by (rule mset_sorted_pairs)
    have 3: "sorted_py (entries_of ?ob kvs) = Inr ?es" by (rule sorted_py_entries[OF k])
    have 4: "sorted_wrt (\<lambda>(k, v) (k', v').
               SortEntry_lt (SortEntry_init k v ?ob) (SortEntry_init k' v' ?ob) = Inr True) ?out"
      if "\<forall>e\<in>set ?es. e_index e \<noteq> PNaN"
    proof -
      from that have "\<forall>e\<in>set (entries_of ?ob kvs). e_index e \<noteq> PNaN"
        by (simp only: set_isort)
      with d k show ?thesis by (rule sorted_pairs)
    qed
    from 1 2 3 4 show ?thesis by blast
  qed
  have list: "\<exists>ps es. mset ps = mset (enumerate_py xs)
        \<and> sorted_py (entries_of ?ob (enumerate_py xs)) = Inr es \<and> ps = map ?kv es
        \<and> Query_run q (Inr (PList xs)) = Inr (PList (map snd ps))
        \<and> ((\<forall>e\<in>set es. e_index e \<noteq> PNaN) \<longrightarrow>
             sorted_wrt (\<lambda>(k, v) (k', v').
               SortEntry_lt (SortEntry_init k v ?ob) (SortEntry_init k' v' ?ob) = Inr True) ps)"
  proof -
    let ?es = "isort lt_holds (entries_of ?ob (enumerate_py xs))"
    let ?ps = "map ?kv ?es"
    have "map snd ?ps = map e_value ?es" by simp
    then have 1: "Query_run q (Inr (PList xs)) = Inr (PList (map snd ?ps))"
      using np Sorter_result_list[of xs ?ob] by (simp add: Query_run_def)
    have 2: "mset ?ps = mset (enumerate_py xs)" by (rule mset_sorted_pairs)
    have 3: "sorted_py (entries_of ?ob (enumerate_py xs)) = Inr ?es"
      by (rule sorted_py_entries[OF is_str_key_enumerate])
    have 4: "sorted_wrt (\<lambda>(k, v) (k', v').
               SortEntry_lt (SortEntry_init k v ?ob) (SortEntry_init k' v' ?ob) = Inr True) ?ps"
      if "\<forall>e\<in>set ?es. e_index e \<noteq> PNaN"
    proof -
      from that have "\<forall>e\<in>set (entries_of ?ob (enumerate_py xs)). e_index e \<noteq> PNaN"
        by (simp only: set_isort)
      with distinct_enumerate is_str_key_enumerate show ?thesis by (rule sorted_pairs)
    qed
    from 1 2 3 4 show ?thesis by blast
  qed
  from dict list show ?thesis by blast
qed

text \<open>
  The array \<^verbatim>\<open>[{"x": 3}, {"x": 1}, {"x": 2}]\<close> by child \<^verbatim>\<open>x\<close> gives the values
  \<^verbatim>\<open>[{"x": 1}, {"x": 2}, {"x": 3}]\<close>; the object \<^verbatim>\<open>{"b": 5, "a": 5}\<close> by value gives
  the ordered pairs \<^verbatim>\<open>a, b\<close>.
\<close>

theorem sorter_output_shape_witness:
  "order_by \<lparr>order_by = ''x'', q_pathurl = ''/items.json''\<rparr> \<noteq> ''$priority''
   \<and> (\<exists>ps. mset ps = mset (enumerate_py [PDict [(StrKey ''x'', PInt 3)],
                PDict [(StrKey ''x'', PInt 1)], PDict [(StrKey ''x'', PInt 2)]])
        \<and> Query_run \<lparr>order_by = ''x'', q_pathurl = ''/items.json''\<rparr>
            (Inr (PList [PDict [(StrKey ''x'', PInt 3)], PDict [(StrKey ''x'', PInt 1)],
               PDict [(StrKey ''x'', PInt 2)]])) = Inr (PList (map snd ps)))
   \<and> Query_run \<lparr>order_by = ''x'', q_pathurl = ''/items.json''\<rparr>
        (Inr (PList [PDict [(StrKey ''x'', PInt 3)], PDict [(StrKey ''x'', PInt 1)],
           PDict [(StrKey ''x'', PInt 2)]]))
      = Inr (PList [PDict [(StrKey ''x'', PInt 1)], PDict [(StrKey ''x'', PInt 2)],
           PDict [(StrKey ''x'', PInt 3)]])
   \<and> Query_run \<lparr>order_by = ''$value'', q_pathurl = ''/items.json''\<rparr>
        (Inr (PDict [(StrKey ''b'', PInt 5), (StrKey ''a'', PInt 5)]))
      = Inr (POrderedDict [(StrKey ''a'', PInt 5), (StrKey ''b'', PInt 5)])"
proof -
  let ?q = "\<lparr>order_by = ''x'', q_pathurl = ''/items.json''\<rparr>"
  let ?xs = "[PDict [(StrKey ''x'', PInt 3)], PDict [(StrKey ''x'', PInt 1)],
     PDict [(StrKey ''x'', PInt 2)]]"
  have h: "order_by ?q \<noteq> ''$priority''" by simp
  from sorter_output_shape[OF h, of "[]" ?xs]
  have 1: "\<exists>ps. mset ps = mset (enumerate_py ?xs)
        \<and> Query_run ?q (Inr (PList ?xs)) = Inr (PList (map snd ps))"
    by blast
  have 2: "Query_run ?q (Inr (PList ?xs))
      = Inr (PList [PDict [(StrKey ''x'', PInt 1)], PDict [(StrKey ''x'', PInt 2)],
           PDict [(StrKey ''x'', PInt 3)]])"
    by code_simp
  have 3: "Query_run \<lparr>order_by = ''$value'', q_pathurl = ''/items.json''\<rparr>
        (Inr (PDict [(StrKey ''b'', PInt 5), (StrKey ''a'', PInt 5)]))
      = Inr (POrderedDict [(StrKey ''a'', PInt 5), (StrKey ''b'', PInt 5)])"
    by code_simp
  from h 1 2 3 show ?thesis by blast
qed

section \<open>Sorting twice\<close>

text \<open>
  Claim C9. For every order key, the sorter succeeds on every array and on every object
  with string keys, and sorting its output again returns that output:
  \<^verbatim>\<open>sort(sort(x, k), k) == sort(x, k)\<close>.
\<close>

theorem sorting_idempotent:
  "(\<exists>y. Sorter_result (PList xs) ob = Inr y \<and> Sorter_result y ob = Inr y)
   \<and> ((\<forall>k\<in>set (map fst kvs). is_str_key k) \<longrightarrow>
        (\<exists>y. Sorter_result (PDict kvs) ob = Inr y \<and> Sorter_result y ob = Inr y))"
proof -
  have list: "\<exists>y. Sorter_result (PList xs) ob = Inr y \<and> Sorter_result y ob = Inr y"
  proof (cases "ob = ''$key'' \<or> ob = ''$priority''")
    case True
    then show ?thesis using Sorter_list_by_key[of ob xs] by simp
  next
    case False
    then show ?thesis using Sorter_list_by_value[of ob xs] by simp
  qed
  have dict: "\<exists>y. Sorter_result (PDict kvs) ob = Inr y \<and> Sorter_result y ob = Inr y"
    if "\<forall>k\<in>set (map fst kvs). is_str_key k"
  proof -
    from that have "\<forall>k\<in>set (map fst kvs). is_str_key k = True" by simp
    then show ?thesis by (rule Sorter_dict_idem)
  qed
  from list dict show ?thesis by blast
qed

text \<open>An object and an array by value, sorted once and then again.\<close>

theorem sorting_idempotent_witness:
  "list_all is_str_key (map fst [(StrKey ''b'', PInt 2), (StrKey ''a'', PStr ''z''),
        (StrKey ''c'', PInt 1)])
   \<and> (\<exists>y. Sorter_result (PDict [(StrKey ''b'', PInt 2), (StrKey ''a'', PStr ''z''),
              (StrKey ''c'', PInt 1)]) ''$value'' = Inr y
        \<and> Sorter_result y ''$value'' = Inr y)
   \<and> Sorter_result (PDict [(StrKey ''b'', PInt 2), (StrKey ''a'', PStr ''z''),
              (StrKey ''c'', PInt 1)]) ''$value''
      = Inr (POrderedDict [(StrKey ''c'', PInt 1), (StrKey ''b'', PInt 2),
              (StrKey ''a'', PStr ''z'')])
   \<and> Sorter_result (POrderedDict [(StrKey ''c'', PInt 1), (StrKey ''b'', PInt 2),
              (StrKey ''a'', PStr ''z'')]) ''$value''
      = Inr (POrderedDict [(StrKey ''c'', PInt 1), (StrKey ''b'', PInt 2),
              (StrKey ''a'', PStr ''z'')])
   \<and> Sorter_result (PList [PInt 2, PStr ''z'', PInt 1]) ''$value''
      = Inr (PList [PInt 1, PInt 2, PStr ''z''])
   \<and> Sorter_result (PList [PInt 1, PInt 2, PStr ''z'']) ''$value''
      = Inr (PList [PInt 1, PInt 2, PStr ''z''])"
proof -
  let ?kvs = "[(StrKey ''b'', PInt 2), (StrKey ''a'', PStr ''z''), (StrKey ''c'', PInt 1)]"
  have h: "\<forall>k\<in>set (map fst ?kvs). is_str_key k" by simp
  have l: "list_all is_str_key (map fst ?kvs)" by simp
  from h sorting_idempotent[of "[]" "''$value''" ?kvs]
  have 1: "\<exists>y. Sorter_result (PDict ?kvs) ''$value'' = Inr y \<and> Sorter_result y ''$value'' = Inr y"
    by blast
  have 2: "Sorter_result (PDict ?kvs) ''$value''
      = Inr (POrderedDict [(StrKey ''c'', PInt 1), (StrKey ''b'', PInt 2),
              (StrKey ''a'', PStr ''z'')])"
    by code_simp
  have 3: "Sorter_result (POrderedDict [(StrKey ''c'', PInt 1), (StrKey ''b'', PInt 2),
              (StrKey ''a'', PStr ''z'')]) ''$value''
      = Inr (POrderedDict [(StrKey ''c'', PInt 1), (StrKey ''b'', PInt 2),
              (StrKey ''a'', PStr ''z'')])"
    by code_simp
  have 4: "Sorter_result (PList [PInt 2, PStr ''z'', PInt 1]) ''$value''
      = Inr (PList [PInt 1, PInt 2, PStr ''z''])"
    by code_simp
  have 5: "Sorter_result (PList [PInt 1, PInt 2, PStr ''z'']) ''$value''
      = Inr (PList [PInt 1, PInt 2, PStr ''z''])"
    by code_simp
  from l 1 2 3 4 5 show ?thesis by blast
qed

end
